theory Spec2Isabelle
  imports Main "HOL-Library.Sublist"
begin

section \<open>Data model of graph.py\<close>

text \<open>
  Graph nodes are either path strings or \<open>Cycle\<close> objects. A \<open>Cycle\<close> stores the
  edge list it was built from and a display root; its member list \<open>nodes\<close> is the list of
  first endpoints of those edges (\<open>Cycle.__init__\<close>). Members may be cycles again.
  Python compares \<open>Cycle\<close> objects by identity; the model compares them by their fields.
  The theorems about \<open>extract_cycle\<close> and \<open>collapse_cycles\<close> state where the fresh
  object must differ from the nodes already present.
\<close>

datatype cycle = Cycle (cycle_edges: "(node \<times> node) list") (cycle_root: string)
  and node = File string | CycleNode cycle

definition cycle_nodes :: "cycle \<Rightarrow> node list" where
  "cycle_nodes c = map fst (cycle_edges c)"

text \<open>\<open>Cycle.flatten_nodes\<close>: the loop appends a path and extends by a nested cycle's result.\<close>

fun flatten_nodes :: "cycle \<Rightarrow> string list"
  and flatten_step :: "node \<Rightarrow> string list \<Rightarrow> string list" where
  "flatten_nodes (Cycle es r) = fold flatten_step (map fst es) []"
| "flatten_step (CycleNode c) out = out @ flatten_nodes c"
| "flatten_step (File p) out = out @ [p]"

text \<open>\<open>Cycle.__contains__\<close>: membership in the member list.\<close>

definition contains :: "cycle \<Rightarrow> node \<Rightarrow> bool" where
  "contains c v \<longleftrightarrow> v \<in> set (cycle_nodes c)"


section \<open>The directed graph of the graph library\<close>

text \<open>
  \<open>networkx.DiGraph\<close> is not code of this repository. The model keeps the nodes and the
  edges in insertion order and follows the documented behaviour of the five operations
  \<open>graph.py\<close> calls: \<open>add_node\<close> and \<open>add_edge\<close> are idempotent, \<open>add_edge\<close> adds
  missing endpoints, \<open>remove_edge\<close> and \<open>remove_node\<close> raise \<open>NetworkXError\<close> on a
  missing edge or node, and \<open>remove_node\<close> drops every edge at the node.
\<close>

datatype error = NetworkXError | NetworkXUnfeasible | TypeError

record digraph =
  nodes :: "node list"
  edges :: "(node \<times> node) list"

definition empty_graph :: digraph where
  "empty_graph = \<lparr>nodes = [], edges = []\<rparr>"

definition add_node :: "node \<Rightarrow> digraph \<Rightarrow> digraph" where
  "add_node n g = (if n \<in> set (nodes g) then g else g\<lparr>nodes := nodes g @ [n]\<rparr>)"

definition add_edge :: "node \<Rightarrow> node \<Rightarrow> digraph \<Rightarrow> digraph" where
  "add_edge u v g =
     (let g' = add_node v (add_node u g)
      in if (u, v) \<in> set (edges g') then g' else g'\<lparr>edges := edges g' @ [(u, v)]\<rparr>)"

definition remove_edge :: "node \<Rightarrow> node \<Rightarrow> digraph \<Rightarrow> error + digraph" where
  "remove_edge u v g =
     (if (u, v) \<in> set (edges g) then Inr (g\<lparr>edges := removeAll (u, v) (edges g)\<rparr>)
      else Inl NetworkXError)"

definition remove_node :: "node \<Rightarrow> digraph \<Rightarrow> error + digraph" where
  "remove_node n g =
     (if n \<in> set (nodes g)
      then Inr \<lparr>nodes = removeAll n (nodes g),
                edges = filter (\<lambda>e. fst e \<noteq> n \<and> snd e \<noteq> n) (edges g)\<rparr>
      else Inl NetworkXError)"

text \<open>
  The representation invariant of the library's graph: no node and no edge is stored
  twice, and both endpoints of every edge are nodes.
\<close>

definition wf_digraph :: "digraph \<Rightarrow> bool" where
  "wf_digraph g \<longleftrightarrow>
     distinct (nodes g) \<and> distinct (edges g) \<and>
     (\<forall>e\<in>set (edges g). fst e \<in> set (nodes g) \<and> snd e \<in> set (nodes g))"

section \<open>The external collaborators\<close>

text \<open>
  The import scanner (\<open>parsepy.scan_file\<close>), the resolver (\<open>resolve.Resolver\<close>, where
  \<open>None\<close> stands for \<open>ImportException\<close>), the file system queries of \<open>os.path\<close> and the
  two graph algorithms of the library (\<open>None\<close> stands for \<open>NetworkXNoCycle\<close> and for
  \<open>NetworkXUnfeasible\<close>) are parameters of the model.
\<close>

record env =
  scan_file :: "string \<Rightarrow> string list"
  resolve_import :: "string list \<Rightarrow> string \<Rightarrow> string \<Rightarrow> string option"
  abspath :: "string \<Rightarrow> string"
  isdir :: "string \<Rightarrow> bool"
  find_cycle :: "digraph \<Rightarrow> (node \<times> node) list option"
  topological_sort :: "digraph \<Rightarrow> node list option"

text \<open>\<open>str.endswith\<close>.\<close>

definition endswith :: "string \<Rightarrow> string \<Rightarrow> bool" where
  "endswith s suf \<longleftrightarrow> suffix suf s"

text \<open>
  \<open>os.path.commonprefix\<close>, by its documentation: the longest string that is a prefix,
  character by character, of every path of the list, and the empty string for no paths.
\<close>

fun lcp :: "string \<Rightarrow> string \<Rightarrow> string" where
  "lcp (x # xs) (y # ys) = (if x = y then x # lcp xs ys else [])"
| "lcp _ _ = []"

fun commonprefix :: "string list \<Rightarrow> string" where
  "commonprefix [] = []"
| "commonprefix (p # ps) = fold lcp ps p"

text \<open>
  \<open>posixpath.dirname\<close>: the text up to the last slash, with trailing slashes stripped
  unless it consists of slashes only.
\<close>

definition dirname :: "string \<Rightarrow> string" where
  "dirname p =
     (let head = rev (dropWhile (\<lambda>c. c \<noteq> CHR ''/'') (rev p))
      in if head \<noteq> [] \<and> \<not> list_all (\<lambda>c. c = CHR ''/'') head
         then rev (dropWhile (\<lambda>c. c = CHR ''/'') (rev head)) else head)"

section \<open>ImportGraph\<close>

record import_graph =
  path :: "string list"
  typeshed_location :: string
  broken_deps :: "string \<rightharpoonup> string set"
  graph :: digraph
  root :: "string option"

text \<open>\<open>ImportGraph.__init__\<close>.\<close>

definition new_import_graph :: "string list \<Rightarrow> string \<Rightarrow> import_graph" where
  "new_import_graph p t =
     \<lparr>path = p, typeshed_location = t, broken_deps = Map.empty, graph = empty_graph,
      root = None\<rparr>"

text \<open>\<open>self.broken_deps[filename].add(imp)\<close> on a \<open>defaultdict(set)\<close>.\<close>

definition add_broken :: "string \<Rightarrow> string \<Rightarrow> (string \<rightharpoonup> string set) \<Rightarrow> (string \<rightharpoonup> string set)" where
  "add_broken filename imp b =
     b(filename \<mapsto> insert imp (case b filename of None \<Rightarrow> {} | Some s \<Rightarrow> s))"

text \<open>
  \<open>get_file_deps\<close>: a resolved path ending in \<open>.so\<close> is dropped, any other resolved
  path is recorded in absolute form, a failed resolution records the specifier.
\<close>

fun get_file_deps_loop ::
  "(string \<Rightarrow> string option) \<Rightarrow> (string \<Rightarrow> string) \<Rightarrow> string list \<Rightarrow>
   string list \<Rightarrow> string list \<Rightarrow> string list \<times> string list" where
  "get_file_deps_loop r ab [] resolved unresolved = (resolved, unresolved)"
| "get_file_deps_loop r ab (imp # imps) resolved unresolved =
     (case r imp of
        Some f \<Rightarrow>
          if \<not> endswith f ''.so''
          then get_file_deps_loop r ab imps (resolved @ [ab f]) unresolved
          else get_file_deps_loop r ab imps resolved unresolved
      | None \<Rightarrow> get_file_deps_loop r ab imps resolved (unresolved @ [imp]))"

definition get_file_deps :: "env \<Rightarrow> string list \<Rightarrow> string \<Rightarrow> string list \<times> string list" where
  "get_file_deps E pth filename =
     get_file_deps_loop (resolve_import E pth filename) (abspath E) (scan_file E filename) [] []"


text \<open>
  \<open>add_file_recursive\<close>: the state of the worklist loop is the queue, the set \<open>seen\<close> and
  the object. \<open>visit\<close> is one pass of the \<open>while\<close> body, \<open>scan_deps\<close> its inner loop over
  the resolved dependencies; \<open>walk\<close> is the loop, which returns \<open>None\<close> when it never
  ends. The state after \<open>n\<close> passes is \<open>(visit E ^^ n) (traversal_start filename ig)\<close>.
\<close>

record traversal =
  queue :: "string list"
  seen :: "string set"
  obj :: import_graph

fun scan_deps :: "string \<Rightarrow> string list \<Rightarrow> traversal \<Rightarrow> traversal" where
  "scan_deps filename [] s = s"
| "scan_deps filename (f # fs) s =
     (let s1 = (if File f \<notin> set (nodes (graph (obj s))) \<and> f \<notin> seen s \<and> endswith f ''.py''
                then s\<lparr>queue := queue s @ [f], seen := insert f (seen s)\<rparr> else s);
          g = add_edge (File filename) (File f) (add_node (File f) (graph (obj s1)))
      in scan_deps filename fs (s1\<lparr>obj := (obj s1)\<lparr>graph := g\<rparr>\<rparr>))"

definition visit :: "env \<Rightarrow> traversal \<Rightarrow> traversal" where
  "visit E s =
     (case queue s of
        [] \<Rightarrow> s
      | filename # rest \<Rightarrow>
          (let ig = obj s;
               g = add_node (File filename) (graph ig);
               (deps, broken) = get_file_deps E (path ig) filename;
               b = fold (add_broken filename) broken (broken_deps ig)
           in scan_deps filename deps
                (s\<lparr>queue := rest, obj := ig\<lparr>graph := g, broken_deps := b\<rparr>\<rparr>)))"

partial_function (option) walk :: "env \<Rightarrow> traversal \<Rightarrow> traversal option" where
  "walk E s = (if queue s = [] then Some s else walk E (visit E s))"

definition traversal_start :: "string \<Rightarrow> import_graph \<Rightarrow> traversal" where
  "traversal_start filename ig = \<lparr>queue = [filename], seen = {}, obj = ig\<rparr>"

definition add_file_recursive :: "env \<Rightarrow> string \<Rightarrow> import_graph \<Rightarrow> import_graph option" where
  "add_file_recursive E filename ig = map_option obj (walk E (traversal_start filename ig))"

text \<open>
  \<open>find_root\<close>. The test \<open>not self.root\<close> holds for \<open>None\<close> and for the empty string.
  \<open>os.path.commonprefix\<close> raises \<open>TypeError\<close> on a \<open>Cycle\<close> object, which is neither
  ordered against strings nor iterable.
\<close>

fun node_paths :: "node list \<Rightarrow> string list option" where
  "node_paths [] = Some []"
| "node_paths (File p # ns) = map_option ((#) p) (node_paths ns)"
| "node_paths (CycleNode c # ns) = None"

definition compute_root :: "env \<Rightarrow> digraph \<Rightarrow> error + string" where
  "compute_root E g =
     (case node_paths (remdups (map fst (edges g))) of
        None \<Rightarrow> Inl TypeError
      | Some keys \<Rightarrow>
          (let pfx = commonprefix keys
           in Inr (if \<not> isdir E pfx then dirname pfx else pfx)))"

definition recompute_root :: "env \<Rightarrow> import_graph \<Rightarrow> error + string \<times> import_graph" where
  "recompute_root E ig =
     (case compute_root E (graph ig) of
        Inl e \<Rightarrow> Inl e
      | Inr pfx \<Rightarrow> Inr (pfx, ig\<lparr>root := Some pfx\<rparr>))"

definition find_root :: "env \<Rightarrow> bool \<Rightarrow> import_graph \<Rightarrow> error + string \<times> import_graph" where
  "find_root E recalculate ig =
     (case root ig of
        None \<Rightarrow> recompute_root E ig
      | Some r \<Rightarrow> if recalculate \<or> r = [] then recompute_root E ig else Inr (r, ig))"

text \<open>\<open>extract_cycle\<close>: the loop over the snapshot of the edges, then the removal of the members.\<close>

definition rewire :: "cycle \<Rightarrow> node \<times> node \<Rightarrow> digraph \<Rightarrow> error + digraph" where
  "rewire c e g =
     (let k = fst e; v = snd e
      in if \<not> contains c k \<and> contains c v
         then (case remove_edge k v g of
                 Inl err \<Rightarrow> Inl err
               | Inr g' \<Rightarrow> Inr (add_edge k (CycleNode c) g'))
         else if contains c k \<and> \<not> contains c v
         then (case remove_edge k v g of
                 Inl err \<Rightarrow> Inl err
               | Inr g' \<Rightarrow> Inr (add_edge (CycleNode c) v g'))
         else Inr g)"

fun rewire_all :: "cycle \<Rightarrow> (node \<times> node) list \<Rightarrow> digraph \<Rightarrow> error + digraph" where
  "rewire_all c [] g = Inr g"
| "rewire_all c (e # es) g =
     (case rewire c e g of Inl err \<Rightarrow> Inl err | Inr g' \<Rightarrow> rewire_all c es g')"

fun remove_nodes :: "node list \<Rightarrow> digraph \<Rightarrow> error + digraph" where
  "remove_nodes [] g = Inr g"
| "remove_nodes (n # ns) g =
     (case remove_node n g of Inl err \<Rightarrow> Inl err | Inr g' \<Rightarrow> remove_nodes ns g')"

definition extract_cycle :: "cycle \<Rightarrow> digraph \<Rightarrow> error + digraph" where
  "extract_cycle c g =
     (let g0 = add_node (CycleNode c) g
      in case rewire_all c (edges g0) g0 of
           Inl err \<Rightarrow> Inl err
         | Inr g1 \<Rightarrow> remove_nodes (cycle_nodes c) g1)"

text \<open>
  \<open>collapse_cycles\<close>: \<open>None\<close> is a loop that never ends, \<open>Some (Inl e)\<close> an exception
  other than \<open>NetworkXNoCycle\<close>, which alone ends the loop.
\<close>

partial_function (option) collapse_loop ::
  "env \<Rightarrow> string \<Rightarrow> digraph \<Rightarrow> (error + digraph) option" where
  "collapse_loop E pfx g =
     (case find_cycle E g of
        None \<Rightarrow> Some (Inr g)
      | Some es \<Rightarrow>
          (case extract_cycle (Cycle es pfx) g of
             Inl err \<Rightarrow> Some (Inl err)
           | Inr g' \<Rightarrow> collapse_loop E pfx g'))"

definition collapse_cycles :: "env \<Rightarrow> import_graph \<Rightarrow> (error + import_graph) option" where
  "collapse_cycles E ig =
     (case find_root E False ig of
        Inl err \<Rightarrow> Some (Inl err)
      | Inr (pfx, ig') \<Rightarrow>
          map_option (map_sum id (\<lambda>g. ig'\<lparr>graph := g\<rparr>)) (collapse_loop E pfx (graph ig')))"

text \<open>\<open>deps_list\<close>: the loop over the topological order, then \<open>reversed\<close>.\<close>

fun deps_loop :: "node list \<Rightarrow> string list list \<Rightarrow> string list list" where
  "deps_loop [] out = out"
| "deps_loop (CycleNode c # ns) out = deps_loop ns (out @ [flatten_nodes c])"
| "deps_loop (File p # ns) out =
     deps_loop ns (if endswith p ''.py'' then out @ [[p]] else out)"

definition deps_list :: "env \<Rightarrow> import_graph \<Rightarrow> error + string list list" where
  "deps_list E ig =
     (case topological_sort E (graph ig) of
        None \<Rightarrow> Inl NetworkXUnfeasible
      | Some order \<Rightarrow> Inr (rev (deps_loop order [])))"


section \<open>Auxiliary notions for the proofs\<close>

text \<open>
  Collapsing a cycle sends each member to the cycle node and leaves every other node as
  it is; an edge is internal when both endpoints are members and on the boundary when
  exactly one is.
\<close>

definition contract :: "cycle \<Rightarrow> node \<Rightarrow> node" where
  "contract c n = (if contains c n then CycleNode c else n)"

definition internal :: "cycle \<Rightarrow> node \<times> node \<Rightarrow> bool" where
  "internal c e \<longleftrightarrow> contains c (fst e) \<and> contains c (snd e)"

definition boundary :: "cycle \<Rightarrow> node \<times> node \<Rightarrow> bool" where
  "boundary c e \<longleftrightarrow> contains c (fst e) \<noteq> contains c (snd e)"

section \<open>Specification-level notions and example data\<close>

text \<open>
  The leaf files of a node, left to right: a path is its own leaf, a cycle has the leaves
  of its recorded members in their recorded order. This is what the specification calls
  the ordered list of leaf file nodes.
\<close>

fun leaf_files :: "node \<Rightarrow> string list" where
  "leaf_files (File p) = [p]"
| "leaf_files (CycleNode (Cycle es r)) = concat (map (\<lambda>e. leaf_files (fst e)) es)"

text \<open>Example data: three files, the cycle of the first two, and a cycle around that cycle.\<close>

definition ex_a :: node where "ex_a = File ''/p/a.py''"
definition ex_b :: node where "ex_b = File ''/p/b.py''"
definition ex_c :: node where "ex_c = File ''/p/c.py''"

definition ex_ab :: cycle where "ex_ab = Cycle [(ex_a, ex_b), (ex_b, ex_a)] ''/p''"

definition ex_graph :: digraph where
  "ex_graph = \<lparr>nodes = [ex_a, ex_b, ex_c],
               edges = [(ex_a, ex_b), (ex_b, ex_a), (ex_c, ex_a), (ex_b, ex_c)]\<rparr>"

definition ex_outer :: cycle where
  "ex_outer = Cycle [(CycleNode ex_ab, ex_c), (ex_c, CycleNode ex_ab)] ''/p''"

text \<open>
  A graph in which \<open>b.py\<close> is a node of its own although the cycle node beside it has it
  as a leaf, with an edge into it and an edge out of it; and a cycle whose recorded edges
  repeat a first endpoint.
\<close>

definition ex_nested_graph :: digraph where
  "ex_nested_graph = \<lparr>nodes = [ex_c, CycleNode ex_ab, ex_b],
      edges = [(ex_c, CycleNode ex_ab), (CycleNode ex_ab, ex_c), (ex_c, ex_b), (ex_b, ex_c)]\<rparr>"

definition ex_repeated :: cycle where
  "ex_repeated = Cycle [(ex_a, ex_b), (ex_a, ex_c)] ''/p''"

text \<open>
  An example environment: \<open>a.py\<close> imports \<open>b\<close>, a missing package, a compiled module and
  a stub; \<open>b.py\<close> imports \<open>a\<close>.
\<close>

definition ex_env :: env where
  "ex_env = \<lparr>scan_file = (\<lambda>f. if f = ''/p/a.py'' then [''b'', ''pkg.missing'', ''m'', ''t''] else
                            if f = ''/p/b.py'' then [''a''] else []),
            resolve_import = (\<lambda>pth f imp.
                 if imp = ''a'' then Some ''/p/a.py'' else
                 if imp = ''b'' then Some ''/p/b.py'' else
                 if imp = ''m'' then Some ''/lib/m.so'' else
                 if imp = ''t'' then Some ''/stubs/t.pyi'' else None),
            abspath = (\<lambda>p. p),
            isdir = (\<lambda>p. p = ''/p'' \<or> p = ''/''),
            find_cycle = (\<lambda>g. None),
            topological_sort = (\<lambda>g. None)\<rparr>"

definition ex_ig :: import_graph where
  "ex_ig = \<lparr>path = [], typeshed_location = ''/stubs'', broken_deps = Map.empty,
            graph = ex_graph, root = None\<rparr>"

text \<open>
  What the proofs assume of the library's \<open>topological_sort\<close> on the graph at hand: the
  order lists every node once and lists the source of every edge before its target.
  \<open>precedes x y xs\<close>: \<open>y\<close> occurs after the first occurrence of \<open>x\<close>.
\<close>

definition precedes :: "'a \<Rightarrow> 'a \<Rightarrow> 'a list \<Rightarrow> bool" where
  "precedes x y xs \<longleftrightarrow> y \<in> set (tl (dropWhile (\<lambda>z. z \<noteq> x) xs))"

definition topological_order :: "digraph \<Rightarrow> node list \<Rightarrow> bool" where
  "topological_order g order \<longleftrightarrow>
     distinct order \<and> set order = set (nodes g) \<and>
     (\<forall>e\<in>set (edges g). precedes (fst e) (snd e) order)"

text \<open>
  The nodes that get a build unit, and the unit of a node: the flattened members of a
  cycle, the one-element list of a path ending in \<open>.py\<close>.
\<close>

fun emitted :: "node \<Rightarrow> bool" where
  "emitted (CycleNode c) = True"
| "emitted (File p) = endswith p ''.py''"

fun build_unit :: "node \<Rightarrow> string list" where
  "build_unit (CycleNode c) = flatten_nodes c"
| "build_unit (File p) = [p]"

definition ex_stub :: node where "ex_stub = File ''/stubs/t.pyi''"

definition ex_dag :: digraph where
  "ex_dag = \<lparr>nodes = [ex_c, CycleNode ex_ab, ex_stub],
             edges = [(ex_c, CycleNode ex_ab), (ex_c, ex_stub), (CycleNode ex_ab, ex_stub)]\<rparr>"

definition ex_dag_ig :: import_graph where
  "ex_dag_ig = \<lparr>path = [], typeshed_location = ''/stubs'', broken_deps = Map.empty,
                graph = ex_dag, root = Some ''/p''\<rparr>"

definition ex_sort_env :: env where
  "ex_sort_env = ex_env\<lparr>topological_sort := (\<lambda>g. Some [ex_c, CycleNode ex_ab, ex_stub])\<rparr>"


text \<open>The state of the traversal after \<open>n\<close> passes of the loop body.\<close>

definition passes :: "env \<Rightarrow> nat \<Rightarrow> traversal \<Rightarrow> traversal" where
  "passes E n s = (visit E ^^ n) s"


text \<open>A fresh object, before any file is added.\<close>

definition ex_new :: import_graph where
  "ex_new = new_import_graph [] ''/stubs''"

text \<open>
  An example without a cycle: \<open>a.py\<close> imports \<open>b\<close>, a missing package, a compiled module
  and a stub; \<open>b.py\<close> imports nothing; the library sorts the three nodes.
\<close>

definition ex_env_dag :: env where
  "ex_env_dag = ex_env\<lparr>
     scan_file := (\<lambda>f. if f = ''/p/a.py'' then [''b'', ''pkg.missing'', ''m'', ''t''] else []),
     topological_sort := (\<lambda>g. Some [File ''/p/a.py'', File ''/p/b.py'', File ''/stubs/t.pyi''])\<rparr>"

text \<open>
  What the proofs assume of the library's \<open>find_cycle\<close>: on a graph without a cycle it
  raises \<open>NetworkXNoCycle\<close>, otherwise it returns the edges of a simple cycle of the graph
  in path order, each edge starting where the one before ends and the last ending where
  the first starts.
\<close>

definition is_cycle :: "digraph \<Rightarrow> (node \<times> node) list \<Rightarrow> bool" where
  "is_cycle g es \<longleftrightarrow>
     es \<noteq> [] \<and> set es \<subseteq> set (edges g) \<and> distinct (map fst es) \<and>
     map snd es = rotate1 (map fst es)"

definition find_cycle_ok :: "(digraph \<Rightarrow> (node \<times> node) list option) \<Rightarrow> bool" where
  "find_cycle_ok fc \<longleftrightarrow>
     (\<forall>g. wf_digraph g \<longrightarrow>
        (case fc g of None \<Rightarrow> acyclic (set (edges g)) | Some es \<Rightarrow> is_cycle g es))"

text \<open>
  The nodes recorded inside a cycle object at any depth. A \<open>Cycle\<close> object is created
  from nodes that \<open>extract_cycle\<close> then removes from the graph, so nothing recorded inside
  a cycle node of the graph is itself a node of the graph. Under this condition a newly
  created \<open>Cycle\<close> differs from every node present, as the fresh Python object does.
\<close>

fun descendants :: "cycle \<Rightarrow> node list"
  and below :: "node \<Rightarrow> node list" where
  "descendants (Cycle es r) = concat (map below (map fst es))"
| "below (CycleNode c) = CycleNode c # descendants c"
| "below (File p) = [File p]"

definition nested_absent :: "digraph \<Rightarrow> bool" where
  "nested_absent g \<longleftrightarrow>
     (\<forall>n\<in>set (nodes g). case n of File p \<Rightarrow> True
        | CycleNode c \<Rightarrow> list_all (\<lambda>d. d \<notin> set (nodes g)) (descendants c))"







text \<open>A node with an edge into it and no edge out of it.\<close>

definition sink_with_source :: "node \<Rightarrow> digraph \<Rightarrow> bool" where
  "sink_with_source n g \<longleftrightarrow>
     n \<in> set (nodes g) \<and> (\<forall>e\<in>set (edges g). fst e \<noteq> n) \<and> (\<exists>e\<in>set (edges g). snd e = n)"

section \<open>Graph operations\<close>

lemma wf_digraph_ends:
  "wf_digraph g \<Longrightarrow> (k, v) \<in> set (edges g) \<Longrightarrow> k \<in> set (nodes g) \<and> v \<in> set (nodes g)"
  unfolding wf_digraph_def by fastforce

lemma add_node_present: "n \<in> set (nodes g) \<Longrightarrow> add_node n g = g"
  by (simp add: add_node_def)

lemma rewire_step:
  assumes e: "e \<in> set (edges g)" and d: "distinct (edges g)"
    and cn: "CycleNode c \<in> set (nodes g)"
    and ends: "fst e \<in> set (nodes g)" "snd e \<in> set (nodes g)"
  shows "\<exists>g'. rewire c e g = Inr g' \<and> nodes g' = nodes g \<and> distinct (edges g') \<and>
           set (edges g') =
             (if boundary c e
              then insert (contract c (fst e), contract c (snd e)) (set (edges g) - {e})
              else set (edges g))"
proof (cases "boundary c e")
  case False
  then show ?thesis using d by (auto simp: rewire_def boundary_def)
next
  case True
  obtain k v where kv: "e = (k, v)" by (cases e)
  show ?thesis
  proof (cases "contains c k")
    case ck: True
    with True kv have nv: "\<not> contains c v" by (simp add: boundary_def)
    from ck nv kv e d cn ends True show ?thesis
      by (auto simp: rewire_def remove_edge_def add_edge_def add_node_present contract_def
          Let_def distinct_removeAll)
  next
    case ck: False
    with True kv have nv: "contains c v" by (simp add: boundary_def)
    from ck nv kv e d cn ends True show ?thesis
      by (auto simp: rewire_def remove_edge_def add_edge_def add_node_present contract_def
          Let_def distinct_removeAll)
  qed
qed

lemma rewire_all_ok:
  assumes "distinct es" "set es \<subseteq> set (edges g)" "distinct (edges g)"
    and "CycleNode c \<in> set (nodes g)"
    and "\<forall>e\<in>set (edges g). fst e \<in> set (nodes g) \<and> snd e \<in> set (nodes g)"
    and "\<forall>e\<in>set es. fst e \<noteq> CycleNode c \<and> snd e \<noteq> CycleNode c"
    and "\<not> contains c (CycleNode c)"
  shows "\<exists>g'. rewire_all c es g = Inr g' \<and> nodes g' = nodes g \<and> distinct (edges g') \<and>
           (\<forall>e\<in>set (edges g'). fst e \<in> set (nodes g') \<and> snd e \<in> set (nodes g')) \<and>
           set (edges g') =
             (set (edges g) - {e \<in> set es. boundary c e}) \<union>
             (\<lambda>e. (contract c (fst e), contract c (snd e))) ` {e \<in> set es. boundary c e}"
  using assms
proof (induction es arbitrary: g)
  case Nil
  then show ?case by simp
next
  case (Cons e es)
  from Cons.prems have e: "e \<in> set (edges g)"
    and ends: "fst e \<in> set (nodes g)" "snd e \<in> set (nodes g)"
    by auto
  from rewire_step [OF e Cons.prems(3) Cons.prems(4) ends]
  obtain g1 where g1: "rewire c e g = Inr g1" "nodes g1 = nodes g" "distinct (edges g1)"
    and E1: "set (edges g1) =
             (if boundary c e
              then insert (contract c (fst e), contract c (snd e)) (set (edges g) - {e})
              else set (edges g))" by blast
  have ne: "e \<notin> set es" and des: "distinct es" using Cons.prems(1) by auto
  have sub: "set es \<subseteq> set (edges g1)" using Cons.prems(2) ne E1 by auto
  have cend: "contract c (fst e) \<in> set (nodes g)" "contract c (snd e) \<in> set (nodes g)"
    using ends Cons.prems(4) by (auto simp: contract_def)
  have f1: "\<forall>x\<in>set (edges g1). fst x \<in> set (nodes g1) \<and> snd x \<in> set (nodes g1)"
    using E1 g1(2) Cons.prems(5) cend by (auto split: if_splits)
  have cn1: "CycleNode c \<in> set (nodes g1)" using g1(2) Cons.prems(4) by simp
  have rest: "\<forall>e\<in>set es. fst e \<noteq> CycleNode c \<and> snd e \<noteq> CycleNode c"
    using Cons.prems(6) by simp
  from Cons.IH [OF des sub g1(3) cn1 f1 rest Cons.prems(7)]
  obtain g' where g': "rewire_all c es g1 = Inr g'" "nodes g' = nodes g1" "distinct (edges g')"
      "\<forall>e\<in>set (edges g'). fst e \<in> set (nodes g') \<and> snd e \<in> set (nodes g')"
    and E': "set (edges g') =
             (set (edges g1) - {e \<in> set es. boundary c e}) \<union>
             (\<lambda>e. (contract c (fst e), contract c (snd e))) ` {e \<in> set es. boundary c e}"
    by blast
  have new_not_old: "boundary c e \<Longrightarrow> (contract c (fst e), contract c (snd e)) \<notin> set es"
    using rest by (auto simp: contract_def boundary_def)
  have "set (edges g') =
             (set (edges g) - {x \<in> set (e # es). boundary c x}) \<union>
             (\<lambda>e. (contract c (fst e), contract c (snd e))) ` {x \<in> set (e # es). boundary c x}"
    unfolding E' E1 using ne new_not_old by (cases "boundary c e") auto
  with g1 g' show ?case by simp
qed

lemma remove_nodes_ok:
  assumes "distinct ms" "set ms \<subseteq> set (nodes g)"
  shows "remove_nodes ms g =
           Inr \<lparr>nodes = filter (\<lambda>n. n \<notin> set ms) (nodes g),
                edges = filter (\<lambda>e. fst e \<notin> set ms \<and> snd e \<notin> set ms) (edges g)\<rparr>"
  using assms
proof (induction ms arbitrary: g)
  case Nil
  then show ?case by simp
next
  case (Cons m ms)
  let ?g1 = "\<lparr>nodes = removeAll m (nodes g),
               edges = filter (\<lambda>e. fst e \<noteq> m \<and> snd e \<noteq> m) (edges g)\<rparr>"
  have 1: "remove_node m g = Inr ?g1" using Cons.prems by (simp add: remove_node_def)
  have 2: "set ms \<subseteq> set (nodes ?g1)" using Cons.prems by auto
  have 3: "distinct ms" using Cons.prems by simp
  have "remove_nodes ms ?g1 = Inr \<lparr>nodes = filter (\<lambda>n. n \<notin> set ms) (nodes ?g1),
                edges = filter (\<lambda>e. fst e \<notin> set ms \<and> snd e \<notin> set ms) (edges ?g1)\<rparr>"
    by (rule Cons.IH [OF 3 2])
  then show ?case using 1
    by (auto simp: removeAll_filter_not_eq intro: filter_cong)
qed

lemma extract_cycle_ok:
  assumes wf: "wf_digraph g" and fresh: "CycleNode c \<notin> set (nodes g)"
    and dist: "distinct (cycle_nodes c)" and sub: "set (cycle_nodes c) \<subseteq> set (nodes g)"
  shows "\<exists>g'. extract_cycle c g = Inr g' \<and> wf_digraph g' \<and>
           nodes g' = filter (\<lambda>n. \<not> contains c n) (nodes g) @ [CycleNode c] \<and>
           set (edges g') =
             (\<lambda>e. (contract c (fst e), contract c (snd e))) ` {e \<in> set (edges g). \<not> internal c e}"
proof -
  let ?cn = "CycleNode c"
  let ?f = "\<lambda>e. (contract c (fst e), contract c (snd e))"
  define g0 where "g0 = add_node ?cn g"
  have g0: "nodes g0 = nodes g @ [?cn]" "edges g0 = edges g"
    using fresh by (simp_all add: add_node_def g0_def)
  have notin: "\<not> contains c ?cn" using fresh sub by (auto simp: contains_def)
  have ends: "k \<in> set (nodes g) \<and> v \<in> set (nodes g)" if "(k, v) \<in> set (edges g)" for k v
    using wf that by (rule wf_digraph_ends)
  have dE: "distinct (edges g)" and dN: "distinct (nodes g)"
    using wf by (simp_all add: wf_digraph_def)
  have noend: "\<forall>e\<in>set (edges g0). fst e \<noteq> ?cn \<and> snd e \<noteq> ?cn"
  proof
    fix e assume "e \<in> set (edges g0)"
    then have "(fst e, snd e) \<in> set (edges g)" using g0 by simp
    from ends [OF this] fresh show "fst e \<noteq> ?cn \<and> snd e \<noteq> ?cn" by auto
  qed
  have ends0: "\<forall>e\<in>set (edges g0). fst e \<in> set (nodes g0) \<and> snd e \<in> set (nodes g0)"
  proof
    fix e assume "e \<in> set (edges g0)"
    then have "(fst e, snd e) \<in> set (edges g)" using g0 by simp
    from ends [OF this] show "fst e \<in> set (nodes g0) \<and> snd e \<in> set (nodes g0)"
      using g0 by simp
  qed
  have "\<exists>g1. rewire_all c (edges g0) g0 = Inr g1 \<and> nodes g1 = nodes g0 \<and> distinct (edges g1) \<and>
           (\<forall>e\<in>set (edges g1). fst e \<in> set (nodes g1) \<and> snd e \<in> set (nodes g1)) \<and>
           set (edges g1) =
             (set (edges g0) - {e \<in> set (edges g0). boundary c e}) \<union>
             ?f ` {e \<in> set (edges g0). boundary c e}"
  proof (rule rewire_all_ok)
    show "distinct (edges g0)" "distinct (edges g0)" using dE g0 by simp_all
    show "set (edges g0) \<subseteq> set (edges g0)" by simp
    show "?cn \<in> set (nodes g0)" using g0 by simp
  qed (fact ends0 noend notin)+
  then obtain g1 where g1: "rewire_all c (edges g0) g0 = Inr g1" "nodes g1 = nodes g @ [?cn]"
      "distinct (edges g1)"
      "\<forall>e\<in>set (edges g1). fst e \<in> set (nodes g1) \<and> snd e \<in> set (nodes g1)"
    and E1: "set (edges g1) = (set (edges g) - {e \<in> set (edges g). boundary c e}) \<union>
             ?f ` {e \<in> set (edges g). boundary c e}"
    unfolding g0 by blast
  let ?M = "set (cycle_nodes c)"
  define g2 where "g2 = \<lparr>nodes = filter (\<lambda>n. n \<notin> ?M) (nodes g1),
              edges = filter (\<lambda>e. fst e \<notin> ?M \<and> snd e \<notin> ?M) (edges g1)\<rparr>"
  have sub1: "set (cycle_nodes c) \<subseteq> set (nodes g1)" using sub g1(2) by auto
  have r: "remove_nodes (cycle_nodes c) g1 = Inr g2"
    unfolding g2_def using dist sub1 by (rule remove_nodes_ok)
  have ex: "extract_cycle c g = Inr g2"
    using g1(1) r by (simp add: extract_cycle_def g0_def [symmetric])
  have N2: "nodes g2 = filter (\<lambda>n. \<not> contains c n) (nodes g) @ [?cn]"
    using g1(2) notin by (simp add: contains_def g2_def)
  have mem2: "x \<in> set (edges g2) \<longleftrightarrow>
      x \<in> set (edges g1) \<and> \<not> contains c (fst x) \<and> \<not> contains c (snd x)" for x
    by (simp add: g2_def contains_def)
  have mem1: "x \<in> set (edges g1) \<longleftrightarrow>
      (x \<in> set (edges g) \<and> \<not> boundary c x) \<or> (\<exists>e\<in>set (edges g). boundary c e \<and> x = ?f e)" for x
    unfolding E1 by blast
  have E2: "set (edges g2) = ?f ` {e \<in> set (edges g). \<not> internal c e}"
  proof (intro set_eqI iffI)
    fix x assume "x \<in> set (edges g2)"
    then have x: "x \<in> set (edges g1)" "\<not> contains c (fst x)" "\<not> contains c (snd x)"
      by (simp_all add: mem2)
    from x(1) consider "x \<in> set (edges g)" "\<not> boundary c x"
      | e where "e \<in> set (edges g)" "boundary c e" "x = ?f e" unfolding mem1 by blast
    then show "x \<in> ?f ` {e \<in> set (edges g). \<not> internal c e}"
    proof cases
      case 1
      with x have "x = ?f x" "\<not> internal c x" by (simp_all add: contract_def internal_def)
      with 1 show ?thesis by blast
    next
      case 2
      then have "\<not> internal c e" by (auto simp: boundary_def internal_def)
      with 2 show ?thesis by blast
    qed
  next
    fix x assume "x \<in> ?f ` {e \<in> set (edges g). \<not> internal c e}"
    then obtain e where e: "e \<in> set (edges g)" "\<not> internal c e" "x = ?f e" by blast
    have out: "\<not> contains c (fst x)" "\<not> contains c (snd x)"
      using e(3) notin by (simp_all add: contract_def)
    have "x \<in> set (edges g1)"
    proof (cases "boundary c e")
      case True
      with e show ?thesis unfolding mem1 by blast
    next
      case False
      with e have xe: "x = e" by (simp add: boundary_def internal_def contract_def)
      from e(1) False show ?thesis unfolding xe mem1 by simp
    qed
    with out show "x \<in> set (edges g2)" by (simp add: mem2)
  qed
  have wf2: "wf_digraph g2"
  proof -
    have d: "distinct (nodes g2)" using dN fresh unfolding N2 by simp
    have d': "distinct (edges g2)" using g1(3) by (simp add: g2_def)
    have "\<forall>x\<in>set (edges g2). fst x \<in> set (nodes g2) \<and> snd x \<in> set (nodes g2)"
    proof
      fix x assume x: "x \<in> set (edges g2)"
      then have "fst x \<in> set (nodes g1)" "snd x \<in> set (nodes g1)" using g1(4) by (simp_all add: mem2)
      moreover have "\<not> contains c (fst x)" "\<not> contains c (snd x)" using x by (simp_all add: mem2)
      ultimately show "fst x \<in> set (nodes g2) \<and> snd x \<in> set (nodes g2)"
        by (simp add: g2_def contains_def)
    qed
    with d d' show ?thesis by (simp add: wf_digraph_def)
  qed
  show ?thesis
    by (rule exI [of _ g2]) (simp only: ex wf2 N2 E2 simp_thms)
qed

section \<open>Flattening\<close>

lemma fold_flatten_step:
  assumes "\<And>n out. n \<in> set ns \<Longrightarrow> flatten_step n out = out @ leaf_files n"
  shows "fold flatten_step ns acc = acc @ concat (map leaf_files ns)"
  using assms by (induction ns arbitrary: acc) simp_all

lemma leaf_files_cycle: "leaf_files (CycleNode c) = concat (map leaf_files (cycle_nodes c))"
  by (cases c) (simp add: cycle_nodes_def comp_def)

lemma distinct_concat_map_each:
  "distinct (concat (map f xs)) \<Longrightarrow> x \<in> set xs \<Longrightarrow> distinct (f x)"
  by (induction xs) auto

lemma distinct_concat_map_disjoint:
  "distinct (concat (map f xs)) \<Longrightarrow> x \<in> set xs \<Longrightarrow> y \<in> set xs \<Longrightarrow> x \<noteq> y \<Longrightarrow>
   set (f x) \<inter> set (f y) = {}"
proof (induction xs)
  case Nil
  then show ?case by simp
next
  case (Cons z zs)
  from Cons.prems(1) have d: "distinct (f z)" "distinct (concat (map f zs))"
    "set (f z) \<inter> (\<Union>w\<in>set zs. set (f w)) = {}" by auto
  consider "x = z" "y \<in> set zs" | "y = z" "x \<in> set zs" | "x \<in> set zs" "y \<in> set zs"
    using Cons.prems(2,3,4) by auto
  then show ?case
  proof cases
    case 1
    with d(3) show ?thesis by blast
  next
    case 2
    with d(3) show ?thesis by blast
  next
    case 3
    with Cons.IH d(2) Cons.prems(4) show ?thesis by blast
  qed
qed

lemma distinct_concat_map_sub:
  assumes "distinct (concat (map f xs))"
  shows "distinct ys \<Longrightarrow> set ys \<subseteq> set xs \<Longrightarrow> distinct (concat (map f ys))"
proof (induction ys)
  case Nil
  show ?case by simp
next
  case (Cons y ys)
  have 1: "distinct (f y)" using assms Cons.prems(2) by (auto intro: distinct_concat_map_each)
  have 2: "distinct (concat (map f ys))" using Cons by simp
  have 3: "set (f y) \<inter> set (f w) = {}" if "w \<in> set ys" for w
  proof -
    from that Cons.prems have "y \<in> set xs" "w \<in> set xs" "y \<noteq> w" by auto
    with assms show ?thesis by (rule distinct_concat_map_disjoint)
  qed
  from 1 2 3 show ?case by auto
qed

lemma flatten_nodes_concat: "flatten_nodes c = concat (map leaf_files (cycle_nodes c))"
proof -
  have "flatten_nodes c = leaf_files (CycleNode c)"
    and "flatten_step n out = out @ leaf_files n" for n out
  proof (induction c and n out rule: flatten_nodes_flatten_step.induct)
    case (1 es r)
    have "fold flatten_step (map fst es) [] = [] @ concat (map leaf_files (map fst es))"
      by (rule fold_flatten_step) (use 1 in auto)
    then show ?case by (simp add: comp_def)
  next
    case (2 c out)
    then show ?case by simp
  next
    case (3 p out)
    show ?case by simp
  qed
  then show ?thesis by (simp add: leaf_files_cycle)
qed

text \<open>
  Claim C3, as amended. For every cycle, whatever the nesting depth, \<open>flatten_nodes\<close>
  returns the leaf files of its recorded member sequence: every recorded leaf occurrence
  once, none left out, in the recorded order. The result has no duplicates when the
  members are distinct nodes of a graph in which no file occurs twice among the leaves of
  the nodes. A graph of distinct path nodes is such a graph, and \<open>extract_cycle\<close> keeps
  the property and the set of files, so every cycle that collapsing creates flattens
  without duplicates.
\<close>

theorem flatten_nodes_leaves_distinct:
  "flatten_nodes c = leaf_files (CycleNode c) \<and>
   (distinct (cycle_nodes c) \<and> set (cycle_nodes c) \<subseteq> set (nodes g) \<and>
    distinct (concat (map leaf_files (nodes g))) \<longrightarrow> distinct (flatten_nodes c)) \<and>
   (wf_digraph g \<and> CycleNode c \<notin> set (nodes g) \<and>
    distinct (cycle_nodes c) \<and> set (cycle_nodes c) \<subseteq> set (nodes g) \<and>
    distinct (concat (map leaf_files (nodes g))) \<longrightarrow>
      (\<exists>g'. extract_cycle c g = Inr g' \<and>
         distinct (concat (map leaf_files (nodes g'))) \<and>
         set (concat (map leaf_files (nodes g'))) = set (concat (map leaf_files (nodes g)))))"
proof -
  have eq: "flatten_nodes c = leaf_files (CycleNode c)"
    by (simp only: flatten_nodes_concat leaf_files_cycle)
  have dist: "distinct (flatten_nodes c)"
    if "distinct (cycle_nodes c)" "set (cycle_nodes c) \<subseteq> set (nodes g)"
      "distinct (concat (map leaf_files (nodes g)))"
    unfolding eq leaf_files_cycle using that(3,1,2) by (rule distinct_concat_map_sub)
  have step: "\<exists>g'. extract_cycle c g = Inr g' \<and>
         distinct (concat (map leaf_files (nodes g'))) \<and>
         set (concat (map leaf_files (nodes g'))) = set (concat (map leaf_files (nodes g)))"
    if h: "wf_digraph g" "CycleNode c \<notin> set (nodes g)" "distinct (cycle_nodes c)"
      "set (cycle_nodes c) \<subseteq> set (nodes g)" "distinct (concat (map leaf_files (nodes g)))"
  proof -
    from extract_cycle_ok [OF h(1-4)] obtain g' where
      ex: "extract_cycle c g = Inr g'"
      and N: "nodes g' = filter (\<lambda>n. \<not> contains c n) (nodes g) @ [CycleNode c]" by blast
    define rest where "rest = filter (\<lambda>n. \<not> contains c n) (nodes g)"
    have lf: "concat (map leaf_files (nodes g')) = concat (map leaf_files (rest @ cycle_nodes c))"
      unfolding N by (simp add: rest_def leaf_files_cycle)
    have dn: "distinct (nodes g)" using h(1) by (simp add: wf_digraph_def)
    have d: "distinct (rest @ cycle_nodes c)"
      using dn h(3) by (auto simp: rest_def contains_def)
    have s: "set (rest @ cycle_nodes c) = set (nodes g)"
      using h(4) by (auto simp: rest_def contains_def)
    have 1: "distinct (concat (map leaf_files (nodes g')))"
      unfolding lf using h(5) d by (rule distinct_concat_map_sub) (simp only: s subset_refl)
    have "set (concat (map leaf_files (rest @ cycle_nodes c))) =
          (\<Union>n\<in>set (rest @ cycle_nodes c). set (leaf_files n))" by simp
    also have "\<dots> = (\<Union>n\<in>set (nodes g). set (leaf_files n))" unfolding s ..
    also have "\<dots> = set (concat (map leaf_files (nodes g)))" by simp
    finally have 2: "set (concat (map leaf_files (nodes g'))) =
        set (concat (map leaf_files (nodes g)))" unfolding lf .
    from ex 1 2 show ?thesis by blast
  qed
  from eq dist step show ?thesis by blast
qed

theorem flatten_nodes_leaves_distinct_witness:
  "flatten_nodes ex_outer = [''/p/a.py'', ''/p/b.py'', ''/p/c.py''] \<and>
   distinct (flatten_nodes ex_ab) \<and>
   (\<exists>g'. extract_cycle ex_ab ex_graph = Inr g' \<and>
         distinct (concat (map leaf_files (nodes g'))) \<and>
         set (concat (map leaf_files (nodes g'))) = set (concat (map leaf_files (nodes ex_graph))))"
proof -
  note t = flatten_nodes_leaves_distinct [of ex_ab ex_graph]
  have h: "wf_digraph ex_graph" "CycleNode ex_ab \<notin> set (nodes ex_graph)"
    "distinct (cycle_nodes ex_ab)" "set (cycle_nodes ex_ab) \<subseteq> set (nodes ex_graph)"
    "distinct (concat (map leaf_files (nodes ex_graph)))"
    by (simp_all add: wf_digraph_def ex_graph_def ex_ab_def ex_a_def ex_b_def ex_c_def
        cycle_nodes_def)
  have 1: "flatten_nodes ex_outer = [''/p/a.py'', ''/p/b.py'', ''/p/c.py'']"
    using flatten_nodes_leaves_distinct [of ex_outer ex_graph]
    by (simp add: ex_outer_def ex_ab_def ex_a_def ex_b_def ex_c_def)
  from t h have 2: "distinct (flatten_nodes ex_ab)" by blast
  from t h have 3: "\<exists>g'. extract_cycle ex_ab ex_graph = Inr g' \<and>
         distinct (concat (map leaf_files (nodes g'))) \<and>
         set (concat (map leaf_files (nodes g'))) = set (concat (map leaf_files (nodes ex_graph)))"
    by blast
  from 1 2 3 show ?thesis by (intro conjI)
qed

text \<open>
  The claim as stated fails for a cycle object whose recorded edges repeat a first
  endpoint: the path is listed twice.
\<close>

theorem flatten_nodes_repeats_member:
  "flatten_nodes ex_repeated = [''/p/a.py'', ''/p/a.py''] \<and> \<not> distinct (flatten_nodes ex_repeated)"
  by (simp add: ex_repeated_def ex_a_def ex_b_def ex_c_def)

section \<open>Extracting a cycle\<close>

text \<open>
  Claim C6. For a cycle object that is not yet a node and whose members are distinct nodes
  of the graph, \<open>extract_cycle\<close> returns normally; an edge from outside into a member
  becomes an edge into the cycle node, an edge from a member to the outside becomes an edge
  out of the cycle node, an edge between members is dropped, every other edge stays, and
  the nodes are the old ones without the members, plus the cycle node.
\<close>

theorem extract_cycle_rewires_boundary:
  assumes "wf_digraph g" and "CycleNode c \<notin> set (nodes g)"
    and "distinct (cycle_nodes c)" and "set (cycle_nodes c) \<subseteq> set (nodes g)"
  shows "\<exists>g'. extract_cycle c g = Inr g' \<and>
           set (edges g') =
             {(k, CycleNode c) |k v. (k, v) \<in> set (edges g) \<and> \<not> contains c k \<and> contains c v} \<union>
             {(CycleNode c, v) |k v. (k, v) \<in> set (edges g) \<and> contains c k \<and> \<not> contains c v} \<union>
             {(k, v). (k, v) \<in> set (edges g) \<and> \<not> contains c k \<and> \<not> contains c v} \<and>
           set (nodes g') = insert (CycleNode c) (set (nodes g) - set (cycle_nodes c))"
proof -
  let ?f = "\<lambda>e. (contract c (fst e), contract c (snd e))"
  from extract_cycle_ok [OF assms]
  obtain g' where ex: "extract_cycle c g = Inr g'"
    and N: "nodes g' = filter (\<lambda>n. \<not> contains c n) (nodes g) @ [CycleNode c]"
    and E: "set (edges g') = ?f ` {e \<in> set (edges g). \<not> internal c e}" by blast
  have "?f ` {e \<in> set (edges g). \<not> internal c e} =
             {(k, CycleNode c) |k v. (k, v) \<in> set (edges g) \<and> \<not> contains c k \<and> contains c v} \<union>
             {(CycleNode c, v) |k v. (k, v) \<in> set (edges g) \<and> contains c k \<and> \<not> contains c v} \<union>
             {(k, v). (k, v) \<in> set (edges g) \<and> \<not> contains c k \<and> \<not> contains c v}"
    (is "?L = ?R")
  proof (intro set_eqI iffI)
    fix x assume "x \<in> ?L"
    then obtain k v where kv: "(k, v) \<in> set (edges g)" "\<not> internal c (k, v)"
      "x = (contract c k, contract c v)" by auto
    then show "x \<in> ?R"
      by (cases "contains c k"; cases "contains c v") (auto simp: internal_def contract_def)
  next
    fix x assume "x \<in> ?R"
    then consider k v where "(k, v) \<in> set (edges g)" "\<not> contains c k" "contains c v" "x = (k, CycleNode c)"
      | k v where "(k, v) \<in> set (edges g)" "contains c k" "\<not> contains c v" "x = (CycleNode c, v)"
      | k v where "(k, v) \<in> set (edges g)" "\<not> contains c k" "\<not> contains c v" "x = (k, v)"
      by blast
    then show "x \<in> ?L"
    proof cases
      case 1
      then have "x = ?f (k, v)" "\<not> internal c (k, v)" by (simp_all add: contract_def internal_def)
      with 1(1) show ?thesis by blast
    next
      case 2
      then have "x = ?f (k, v)" "\<not> internal c (k, v)" by (simp_all add: contract_def internal_def)
      with 2(1) show ?thesis by blast
    next
      case 3
      then have "x = ?f (k, v)" "\<not> internal c (k, v)" by (simp_all add: contract_def internal_def)
      with 3(1) show ?thesis by blast
    qed
  qed
  with E have E': "set (edges g') = ?R" by simp
  have N': "set (nodes g') = insert (CycleNode c) (set (nodes g) - set (cycle_nodes c))"
    unfolding N by (auto simp: contains_def)
  show ?thesis
    by (rule exI [of _ g']) (simp only: ex E' N' simp_thms)
qed

theorem extract_cycle_rewires_boundary_witness:
  "\<exists>g'. extract_cycle ex_ab ex_graph = Inr g' \<and>
     set (edges g') =
       {(k, CycleNode ex_ab) |k v. (k, v) \<in> set (edges ex_graph) \<and> \<not> contains ex_ab k \<and> contains ex_ab v} \<union>
       {(CycleNode ex_ab, v) |k v. (k, v) \<in> set (edges ex_graph) \<and> contains ex_ab k \<and> \<not> contains ex_ab v} \<union>
       {(k, v). (k, v) \<in> set (edges ex_graph) \<and> \<not> contains ex_ab k \<and> \<not> contains ex_ab v} \<and>
     set (nodes g') = insert (CycleNode ex_ab) (set (nodes ex_graph) - set (cycle_nodes ex_ab))"
  by (rule extract_cycle_rewires_boundary)
    (simp_all add: wf_digraph_def ex_graph_def ex_ab_def ex_a_def ex_b_def ex_c_def cycle_nodes_def)

text \<open>
  Claim C10. For every cycle \<open>c\<close> and value \<open>v\<close>, \<open>v in c\<close> holds exactly when \<open>v\<close> is a
  first endpoint of a recorded edge of \<open>c\<close>. A path that \<open>flatten_nodes c\<close> lists through a
  nested cycle, and that is no direct member, is not in \<open>c\<close>. \<open>extract_cycle\<close> decides by
  this membership alone: every edge with an endpoint outside the members survives with
  each member endpoint replaced by the cycle node, the result has no other edge, and
  every node that is no member stays, also when it is a leaf of a nested cycle.
\<close>

theorem contains_is_top_level_membership:
  "(\<forall>v. contains c v \<longleftrightarrow> v \<in> fst ` set (cycle_edges c)) \<and>
   (\<forall>d p. CycleNode d \<in> fst ` set (cycle_edges c) \<and> p \<in> set (flatten_nodes d) \<and>
          File p \<notin> fst ` set (cycle_edges c) \<longrightarrow>
          p \<in> set (flatten_nodes c) \<and> \<not> contains c (File p)) \<and>
   (wf_digraph g \<and> CycleNode c \<notin> set (nodes g) \<and>
    distinct (cycle_nodes c) \<and> set (cycle_nodes c) \<subseteq> set (nodes g) \<longrightarrow>
      (\<exists>g'. extract_cycle c g = Inr g' \<and>
         (\<forall>k v. (k, v) \<in> set (edges g) \<and> \<not> (contains c k \<and> contains c v) \<longrightarrow>
                ((if contains c k then CycleNode c else k),
                 (if contains c v then CycleNode c else v)) \<in> set (edges g')) \<and>
         (\<forall>e\<in>set (edges g'). \<exists>k v. (k, v) \<in> set (edges g) \<and> \<not> (contains c k \<and> contains c v) \<and>
                e = ((if contains c k then CycleNode c else k),
                     (if contains c v then CycleNode c else v))) \<and>
         (\<forall>n. n \<in> set (nodes g) \<and> \<not> contains c n \<longrightarrow> n \<in> set (nodes g'))))"
proof -
  let ?f = "\<lambda>e. (contract c (fst e), contract c (snd e))"
  have mem: "contains c v \<longleftrightarrow> v \<in> fst ` set (cycle_edges c)" for v
    by (simp add: contains_def cycle_nodes_def)
  note fl = flatten_nodes_concat
  have nested: "p \<in> set (flatten_nodes c) \<and> \<not> contains c (File p)"
    if "CycleNode d \<in> fst ` set (cycle_edges c)" "p \<in> set (flatten_nodes d)"
      "File p \<notin> fst ` set (cycle_edges c)" for d p
  proof -
    from that(1) have "CycleNode d \<in> set (cycle_nodes c)" by (simp add: cycle_nodes_def)
    moreover from that(2) have "p \<in> set (leaf_files (CycleNode d))"
      by (simp add: fl leaf_files_cycle)
    ultimately have "p \<in> set (flatten_nodes c)" unfolding fl [of c] by auto
    with that(3) show ?thesis by (simp add: mem)
  qed
  have ext: "\<exists>g'. extract_cycle c g = Inr g' \<and>
         (\<forall>k v. (k, v) \<in> set (edges g) \<and> \<not> (contains c k \<and> contains c v) \<longrightarrow>
                ((if contains c k then CycleNode c else k),
                 (if contains c v then CycleNode c else v)) \<in> set (edges g')) \<and>
         (\<forall>e\<in>set (edges g'). \<exists>k v. (k, v) \<in> set (edges g) \<and> \<not> (contains c k \<and> contains c v) \<and>
                e = ((if contains c k then CycleNode c else k),
                     (if contains c v then CycleNode c else v))) \<and>
         (\<forall>n. n \<in> set (nodes g) \<and> \<not> contains c n \<longrightarrow> n \<in> set (nodes g'))"
    if h: "wf_digraph g" "CycleNode c \<notin> set (nodes g)" "distinct (cycle_nodes c)"
      "set (cycle_nodes c) \<subseteq> set (nodes g)"
  proof -
    from extract_cycle_ok [OF h] obtain g' where ex: "extract_cycle c g = Inr g'"
      and N: "nodes g' = filter (\<lambda>n. \<not> contains c n) (nodes g) @ [CycleNode c]"
      and E: "set (edges g') = ?f ` {e \<in> set (edges g). \<not> internal c e}" by blast
    have 1: "((if contains c k then CycleNode c else k),
              (if contains c v then CycleNode c else v)) \<in> set (edges g')"
      if "(k, v) \<in> set (edges g)" "\<not> (contains c k \<and> contains c v)" for k v
    proof -
      from that have "(k, v) \<in> {e \<in> set (edges g). \<not> internal c e}" by (simp add: internal_def)
      then have "?f (k, v) \<in> set (edges g')" unfolding E by (rule imageI)
      then show ?thesis by (simp add: contract_def)
    qed
    have 2: "\<exists>k v. (k, v) \<in> set (edges g) \<and> \<not> (contains c k \<and> contains c v) \<and>
                e = ((if contains c k then CycleNode c else k),
                     (if contains c v then CycleNode c else v))" if "e \<in> set (edges g')" for e
    proof -
      from that obtain e0 where e0: "e0 \<in> set (edges g)" "\<not> internal c e0" "e = ?f e0"
        unfolding E by blast
      obtain k v where kv: "e0 = (k, v)" by (cases e0)
      with e0 have "(k, v) \<in> set (edges g)" "\<not> (contains c k \<and> contains c v)"
        "e = ((if contains c k then CycleNode c else k), (if contains c v then CycleNode c else v))"
        by (simp_all add: internal_def contract_def)
      then show ?thesis by blast
    qed
    have 3: "n \<in> set (nodes g')" if "n \<in> set (nodes g)" "\<not> contains c n" for n
      unfolding N using that by simp
    from ex 1 2 3 show ?thesis by blast
  qed
  from mem nested ext show ?thesis by blast
qed

theorem contains_is_top_level_membership_witness:
  "\<not> contains ex_outer ex_b \<and> ''/p/b.py'' \<in> set (flatten_nodes ex_outer) \<and>
   (\<exists>g'. extract_cycle ex_outer ex_nested_graph = Inr g' \<and>
         (CycleNode ex_outer, ex_b) \<in> set (edges g') \<and>
         (ex_b, CycleNode ex_outer) \<in> set (edges g') \<and> ex_b \<in> set (nodes g'))"
proof -
  note t = contains_is_top_level_membership [of ex_outer ex_nested_graph]
  have h: "wf_digraph ex_nested_graph" "CycleNode ex_outer \<notin> set (nodes ex_nested_graph)"
    "distinct (cycle_nodes ex_outer)" "set (cycle_nodes ex_outer) \<subseteq> set (nodes ex_nested_graph)"
    by (simp_all add: wf_digraph_def ex_nested_graph_def ex_outer_def ex_ab_def ex_a_def
        ex_b_def ex_c_def cycle_nodes_def)
  have m: "CycleNode ex_ab \<in> fst ` set (cycle_edges ex_outer)"
    "''/p/b.py'' \<in> set (flatten_nodes ex_ab)" "File ''/p/b.py'' \<notin> fst ` set (cycle_edges ex_outer)"
    "contains ex_outer ex_c" "\<not> contains ex_outer ex_b" "ex_b = File ''/p/b.py''"
    "(ex_c, ex_b) \<in> set (edges ex_nested_graph)" "(ex_b, ex_c) \<in> set (edges ex_nested_graph)"
    "ex_b \<in> set (nodes ex_nested_graph)"
    by (simp_all add: ex_nested_graph_def ex_outer_def ex_ab_def ex_a_def ex_b_def ex_c_def
        contains_def cycle_nodes_def)
  from t m(1,2,3) have 1: "''/p/b.py'' \<in> set (flatten_nodes ex_outer)" by blast
  from t h obtain g' where g': "extract_cycle ex_outer ex_nested_graph = Inr g'"
    and e: "\<forall>k v. (k, v) \<in> set (edges ex_nested_graph) \<and> \<not> (contains ex_outer k \<and> contains ex_outer v) \<longrightarrow>
                ((if contains ex_outer k then CycleNode ex_outer else k),
                 (if contains ex_outer v then CycleNode ex_outer else v)) \<in> set (edges g')"
    and n: "\<forall>n. n \<in> set (nodes ex_nested_graph) \<and> \<not> contains ex_outer n \<longrightarrow> n \<in> set (nodes g')"
    by blast
  from e m(7) m(4,5) have 2: "(CycleNode ex_outer, ex_b) \<in> set (edges g')" by force
  from e m(8) m(4,5) have 3: "(ex_b, CycleNode ex_outer) \<in> set (edges g')" by force
  from n m(9) m(5) have 4: "ex_b \<in> set (nodes g')" by blast
  from g' 2 3 4 have "\<exists>g'. extract_cycle ex_outer ex_nested_graph = Inr g' \<and>
         (CycleNode ex_outer, ex_b) \<in> set (edges g') \<and>
         (ex_b, CycleNode ex_outer) \<in> set (edges g') \<and> ex_b \<in> set (nodes g')" by blast
  with m(5) 1 show ?thesis by (intro conjI)
qed

section \<open>The root prefix\<close>

lemma lcp_prefix: "prefix (lcp a b) a \<and> prefix (lcp a b) b"
  by (induction a b rule: lcp.induct) simp_all

lemma lcp_greatest: "prefix q a \<Longrightarrow> prefix q b \<Longrightarrow> prefix q (lcp a b)"
proof (induction a b arbitrary: q rule: lcp.induct)
  case (1 x xs y ys)
  then show ?case by (cases q) auto
qed simp_all

lemma fold_lcp_prefix:
  "prefix (fold lcp ks p) p \<and> (\<forall>k\<in>set ks. prefix (fold lcp ks p) k)"
proof (induction ks arbitrary: p)
  case Nil
  show ?case by simp
next
  case (Cons k ks)
  have 1: "prefix (fold lcp ks (lcp k p)) (lcp k p)"
    and 2: "\<forall>x\<in>set ks. prefix (fold lcp ks (lcp k p)) x"
    using Cons.IH [of "lcp k p"] by simp_all
  from 1 lcp_prefix [of k p] have "prefix (fold lcp ks (lcp k p)) p" "prefix (fold lcp ks (lcp k p)) k"
    by (auto intro: prefix_order.trans)
  with 2 show ?case by simp
qed

lemma fold_lcp_greatest:
  "prefix q p \<Longrightarrow> \<forall>k\<in>set ks. prefix q k \<Longrightarrow> prefix q (fold lcp ks p)"
proof (induction ks arbitrary: p)
  case Nil
  then show ?case by simp
next
  case (Cons k ks)
  from Cons.prems have "prefix q (lcp k p)" by (simp add: lcp_greatest)
  with Cons.prems show ?case by (simp add: Cons.IH)
qed

lemma commonprefix_prefix: "k \<in> set ks \<Longrightarrow> prefix (commonprefix ks) k"
  using fold_lcp_prefix by (cases ks) auto

lemma commonprefix_greatest:
  "ks \<noteq> [] \<Longrightarrow> \<forall>k\<in>set ks. prefix q k \<Longrightarrow> prefix q (commonprefix ks)"
  by (cases ks) (simp_all add: fold_lcp_greatest)

lemma prefix_rev_dropWhile_rev: "prefix (rev (dropWhile P (rev p))) p"
proof -
  have "suffix (dropWhile P (rev p)) (rev p)" by (rule suffix_dropWhile)
  then show ?thesis by (simp add: suffix_to_prefix)
qed

lemma dirname_prefix: "prefix (dirname p) p"
proof -
  let ?head = "rev (dropWhile (\<lambda>c. c \<noteq> CHR ''/'') (rev p))"
  have h: "prefix ?head p" by (rule prefix_rev_dropWhile_rev)
  have "prefix (rev (dropWhile (\<lambda>c. c = CHR ''/'') (rev ?head))) ?head"
    by (rule prefix_rev_dropWhile_rev)
  with h have "prefix (rev (dropWhile (\<lambda>c. c = CHR ''/'') (rev ?head))) p"
    by (rule prefix_order.trans [rotated])
  with h show ?thesis by (simp add: dirname_def Let_def)
qed

lemma node_paths_Some:
  "\<forall>n\<in>set ns. \<exists>p. n = File p \<Longrightarrow> \<exists>ks. node_paths ns = Some ks \<and> map File ks = ns"
proof (induction ns)
  case Nil
  then show ?case by simp
next
  case (Cons n ns)
  then obtain p ks where "n = File p" "node_paths ns = Some ks" "map File ks = ns" by auto
  then show ?case by simp
qed

lemma compute_root_files:
  assumes "\<forall>n\<in>fst ` set (edges g). \<exists>p. n = File p"
  shows "\<exists>cp. compute_root E g = Inr (if isdir E cp then cp else dirname cp) \<and>
           (\<forall>p. File p \<in> fst ` set (edges g) \<longrightarrow> prefix cp p) \<and>
           (if edges g = [] then cp = []
            else \<forall>q. (\<forall>p. File p \<in> fst ` set (edges g) \<longrightarrow> prefix q p) \<longrightarrow> prefix q cp)"
proof -
  let ?ns = "remdups (map fst (edges g))"
  have "\<forall>n\<in>set ?ns. \<exists>p. n = File p" using assms by simp
  from node_paths_Some [OF this] obtain ks where
    ks: "node_paths ?ns = Some ks" "map File ks = ?ns" by blast
  have mem: "p \<in> set ks \<longleftrightarrow> File p \<in> fst ` set (edges g)" for p
  proof -
    have "File p \<in> set (map File ks) \<longleftrightarrow> File p \<in> fst ` set (edges g)"
      unfolding ks(2) by simp
    then show ?thesis by auto
  qed
  have empty: "ks = [] \<longleftrightarrow> edges g = []"
  proof -
    have "ks = [] \<longleftrightarrow> map File ks = []" by simp
    also have "\<dots> \<longleftrightarrow> edges g = []" unfolding ks(2) by simp
    finally show ?thesis .
  qed
  let ?cp = "commonprefix ks"
  have 1: "compute_root E g = Inr (if isdir E ?cp then ?cp else dirname ?cp)"
    using ks(1) by (simp add: compute_root_def Let_def)
  have 2: "\<forall>p. File p \<in> fst ` set (edges g) \<longrightarrow> prefix ?cp p"
    using commonprefix_prefix mem by blast
  have 3: "if edges g = [] then ?cp = []
            else \<forall>q. (\<forall>p. File p \<in> fst ` set (edges g) \<longrightarrow> prefix q p) \<longrightarrow> prefix q ?cp"
  proof (cases "edges g = []")
    case True
    with empty show ?thesis by simp
  next
    case False
    with empty have ne: "ks \<noteq> []" by simp
    have "prefix q ?cp" if "\<forall>p. File p \<in> fst ` set (edges g) \<longrightarrow> prefix q p" for q
      using that mem by (intro commonprefix_greatest ne) blast
    with False show ?thesis by simp
  qed
  show ?thesis by (rule exI [of _ ?cp]) (intro conjI 1 2 3)
qed

text \<open>
  Claim C8. When the root is recomputed, that is on request (\<open>recalculate\<close>), when no root
  is cached yet, or when the cached root is the empty string, \<open>find_root\<close> returns the
  longest common prefix \<open>cp\<close> of the first endpoints of all edges if that is a directory
  and \<open>dirname cp\<close> otherwise, and stores the result. Otherwise it returns the stored
  root and leaves the object alone. The result of a recomputation is a prefix of every
  first endpoint.
\<close>

theorem find_root_common_prefix:
  assumes "recalculate \<or> root ig = None \<or> root ig = Some [] \<Longrightarrow>
           \<forall>n\<in>fst ` set (edges (graph ig)). \<exists>p. n = File p"
  shows "\<exists>r. find_root E recalculate ig = Inr (r, ig\<lparr>root := Some r\<rparr>) \<and>
           (if recalculate \<or> root ig = None \<or> root ig = Some []
            then \<exists>cp. r = (if isdir E cp then cp else dirname cp) \<and>
                   (\<forall>p. File p \<in> fst ` set (edges (graph ig)) \<longrightarrow> prefix cp p \<and> prefix r p) \<and>
                   (if edges (graph ig) = [] then cp = []
                    else \<forall>q. (\<forall>p. File p \<in> fst ` set (edges (graph ig)) \<longrightarrow> prefix q p)
                           \<longrightarrow> prefix q cp)
            else root ig = Some r)"
proof (cases "recalculate \<or> root ig = None \<or> root ig = Some []")
  case True
  from compute_root_files [OF assms [OF True], of E]
  obtain cp where cp: "compute_root E (graph ig) = Inr (if isdir E cp then cp else dirname cp)"
      "\<forall>p. File p \<in> fst ` set (edges (graph ig)) \<longrightarrow> prefix cp p"
      "if edges (graph ig) = [] then cp = []
       else \<forall>q. (\<forall>p. File p \<in> fst ` set (edges (graph ig)) \<longrightarrow> prefix q p) \<longrightarrow> prefix q cp"
    by blast
  let ?r = "if isdir E cp then cp else dirname cp"
  have fr: "find_root E recalculate ig = Inr (?r, ig\<lparr>root := Some ?r\<rparr>)"
    using True cp(1) by (auto simp: find_root_def recompute_root_def split: option.splits)
  have "prefix ?r cp" by (simp add: dirname_prefix)
  with cp(2) have pre: "\<forall>p. File p \<in> fst ` set (edges (graph ig)) \<longrightarrow> prefix cp p \<and> prefix ?r p"
    by (meson prefix_order.trans)
  have "\<exists>cp'. ?r = (if isdir E cp' then cp' else dirname cp') \<and>
                   (\<forall>p. File p \<in> fst ` set (edges (graph ig)) \<longrightarrow> prefix cp' p \<and> prefix ?r p) \<and>
                   (if edges (graph ig) = [] then cp' = []
                    else \<forall>q. (\<forall>p. File p \<in> fst ` set (edges (graph ig)) \<longrightarrow> prefix q p)
                           \<longrightarrow> prefix q cp')"
    by (rule exI [of _ cp]) (intro conjI refl pre cp(3))
  with fr True show ?thesis by (intro exI [of _ ?r]) (simp only: simp_thms if_True)
next
  case False
  then obtain r where r: "root ig = Some r" "r \<noteq> []" "\<not> recalculate" by auto
  then have "find_root E recalculate ig = Inr (r, ig\<lparr>root := Some r\<rparr>)"
    by (simp add: find_root_def)
  with False r show ?thesis by simp
qed

theorem find_root_common_prefix_witness:
  "\<exists>r. find_root ex_env False ex_ig = Inr (r, ex_ig\<lparr>root := Some r\<rparr>) \<and>
     (\<exists>cp. r = (if isdir ex_env cp then cp else dirname cp) \<and>
        (\<forall>p. File p \<in> fst ` set (edges (graph ex_ig)) \<longrightarrow> prefix cp p \<and> prefix r p) \<and>
        (\<forall>q. (\<forall>p. File p \<in> fst ` set (edges (graph ex_ig)) \<longrightarrow> prefix q p) \<longrightarrow> prefix q cp))"
  using find_root_common_prefix [of False ex_ig ex_env]
  by (simp add: ex_ig_def ex_graph_def ex_a_def ex_b_def ex_c_def)

lemma find_root_example: "find_root ex_env False ex_ig = Inr (''/p'', ex_ig\<lparr>root := Some ''/p''\<rparr>)"
  by (simp add: find_root_def recompute_root_def compute_root_def ex_ig_def ex_graph_def ex_a_def ex_b_def ex_c_def ex_env_def dirname_def)

section \<open>The build order\<close>

lemma deps_loop_units:
  "deps_loop ns out = out @ map build_unit (filter emitted ns)"
  by (induction ns out rule: deps_loop.induct) simp_all

lemma deps_list_units:
  assumes "topological_sort E (graph ig) = Some order"
  shows "deps_list E ig = Inr (map build_unit (rev (filter emitted order)))"
  using assms by (simp add: deps_list_def deps_loop_units rev_map)

lemma precedes_split:
  assumes "precedes x y xs"
  shows "\<exists>as bs cs. xs = as @ x # bs @ y # cs"
proof -
  let ?d = "dropWhile (\<lambda>z. z \<noteq> x) xs"
  from assms have y: "y \<in> set (tl ?d)" by (simp add: precedes_def)
  have ne: "?d \<noteq> []"
  proof
    assume e: "?d = []"
    from y show False unfolding e by simp
  qed
  then have "hd ?d = x" using hd_dropWhile [of "\<lambda>z. z \<noteq> x" xs] by simp
  with ne have d: "?d = x # tl ?d" by (cases ?d) simp_all
  from y obtain bs cs where "tl ?d = bs @ y # cs" by (auto simp: in_set_conv_decomp)
  with d have "?d = x # bs @ y # cs" by simp
  then have "xs = takeWhile (\<lambda>z. z \<noteq> x) xs @ x # bs @ y # cs"
    using takeWhile_dropWhile_id [of "\<lambda>z. z \<noteq> x" xs] by simp
  then show ?thesis by blast
qed

lemma emitted_positions:
  assumes "precedes u v order" and "emitted u" and "emitted v"
  shows "\<exists>i j. i < j \<and> j < length (rev (filter emitted order)) \<and>
           rev (filter emitted order) ! i = v \<and> rev (filter emitted order) ! j = u"
proof -
  from precedes_split [OF assms(1)] obtain as bs cs where
    xs: "order = as @ u # bs @ v # cs" by blast
  define A where "A = rev (filter emitted cs)"
  define B where "B = rev (filter emitted bs)"
  define C where "C = rev (filter emitted as)"
  have r: "rev (filter emitted order) = A @ v # B @ u # C"
    using assms(2,3) by (simp add: xs A_def B_def C_def)
  let ?i = "length A" and ?j = "length A + Suc (length B)"
  have "(A @ v # B @ u # C) ! ?i = v" by simp
  moreover have "(A @ v # B @ u # C) ! ?j = u"
    by (simp add: nth_append)
  moreover have "?i < ?j" "?j < length (A @ v # B @ u # C)" by simp_all
  ultimately show ?thesis unfolding r by blast
qed

text \<open>
  Claim C2. Let the library return a topological order of the graph (sources of edges
  first). Then for every edge from a dependent \<open>u\<close> to a dependency \<open>v\<close> that both get
  a build unit, \<open>deps_list\<close> returns the units of the emitted nodes, one per node, and the
  unit of \<open>v\<close> stands at an earlier position than the unit of \<open>u\<close>.
\<close>

theorem deps_list_dependencies_first:
  assumes "topological_sort E (graph ig) = Some order"
    and "topological_order (graph ig) order"
    and "(u, v) \<in> set (edges (graph ig))"
    and "emitted u" and "emitted v"
  shows "\<exists>units ns i j. deps_list E ig = Inr units \<and> units = map build_unit ns \<and>
           distinct ns \<and> set ns = {n \<in> set (nodes (graph ig)). emitted n} \<and>
           i < j \<and> j < length units \<and>
           ns ! i = v \<and> ns ! j = u \<and> units ! i = build_unit v \<and> units ! j = build_unit u"
proof -
  let ?ns = "rev (filter emitted order)"
  have dl: "deps_list E ig = Inr (map build_unit ?ns)" by (rule deps_list_units [OF assms(1)])
  have d: "distinct ?ns" using assms(2) by (simp add: topological_order_def)
  have s: "set ?ns = {n \<in> set (nodes (graph ig)). emitted n}"
    using assms(2) by (auto simp: topological_order_def)
  have "precedes u v order" using assms(2,3) by (force simp: topological_order_def)
  from emitted_positions [OF this assms(4,5)] obtain i j where
    ij: "i < j" "j < length ?ns" "?ns ! i = v" "?ns ! j = u" by blast
  then have u: "map build_unit ?ns ! i = build_unit v" "map build_unit ?ns ! j = build_unit u"
    by (simp_all del: rev_filter)
  have l: "j < length (map build_unit ?ns)" using ij(2) by simp
  show ?thesis
    by (intro exI [of _ "map build_unit ?ns"] exI [of _ ?ns] exI [of _ i] exI [of _ j] conjI
        dl refl d s ij(1) l ij(3) ij(4) u)
qed

theorem deps_list_dependencies_first_witness:
  "\<exists>units ns i j. deps_list ex_sort_env ex_dag_ig = Inr units \<and> units = map build_unit ns \<and>
           distinct ns \<and> set ns = {n \<in> set (nodes (graph ex_dag_ig)). emitted n} \<and>
           i < j \<and> j < length units \<and>
           ns ! i = CycleNode ex_ab \<and> ns ! j = ex_c \<and>
           units ! i = build_unit (CycleNode ex_ab) \<and> units ! j = build_unit ex_c"
  by (rule deps_list_dependencies_first [where order = "[ex_c, CycleNode ex_ab, ex_stub]"])
    (simp_all add: ex_sort_env_def ex_dag_ig_def ex_dag_def topological_order_def precedes_def
      ex_c_def ex_stub_def endswith_def suffix_to_prefix)

text \<open>
  What \<open>deps_list\<close> does with a path node that does not end in \<open>.py\<close>, given a
  topological order of the graph.
\<close>

lemma deps_list_non_source:
  assumes "topological_sort E (graph ig) = Some order"
    and "topological_order (graph ig) order"
    and "File p \<in> set (nodes (graph ig))" and "\<not> endswith p ''.py''"
  shows "File p \<in> set order \<and>
         (\<forall>k. (k, File p) \<in> set (edges (graph ig)) \<longrightarrow> precedes k (File p) order) \<and>
         (\<exists>ns. deps_list E ig = Inr (map build_unit ns) \<and> distinct ns \<and>
               set ns = {n \<in> set (nodes (graph ig)). emitted n} \<and> File p \<notin> set ns \<and>
               ((\<forall>c. CycleNode c \<in> set (nodes (graph ig)) \<longrightarrow> p \<notin> set (flatten_nodes c))
                \<longrightarrow> (\<forall>u\<in>set (map build_unit ns). p \<notin> set u)))"
proof -
  let ?ns = "rev (filter emitted order)"
  have dl: "deps_list E ig = Inr (map build_unit ?ns)" by (rule deps_list_units [OF assms(1)])
  have d: "distinct ?ns" using assms(2) by (simp add: topological_order_def)
  have s: "set ?ns = {n \<in> set (nodes (graph ig)). emitted n}"
    using assms(2) by (auto simp: topological_order_def)
  have n: "File p \<notin> set ?ns" using assms(4) by simp
  have 1: "File p \<in> set order" using assms(2,3) by (simp add: topological_order_def)
  have 2: "\<forall>k. (k, File p) \<in> set (edges (graph ig)) \<longrightarrow> precedes k (File p) order"
    using assms(2) by (force simp: topological_order_def)
  have u: "(\<forall>c. CycleNode c \<in> set (nodes (graph ig)) \<longrightarrow> p \<notin> set (flatten_nodes c))
                \<longrightarrow> (\<forall>u\<in>set (map build_unit ?ns). p \<notin> set u)"
  proof (intro impI ballI)
    fix u assume c: "\<forall>c. CycleNode c \<in> set (nodes (graph ig)) \<longrightarrow> p \<notin> set (flatten_nodes c)"
      and "u \<in> set (map build_unit ?ns)"
    then obtain m where m: "m \<in> set ?ns" "u = build_unit m" by auto
    from m(1) s have mn: "m \<in> set (nodes (graph ig))" "emitted m" by auto
    show "p \<notin> set u"
    proof (cases m)
      case (File q)
      with mn(2) assms(4) have "q \<noteq> p" by auto
      with File m(2) show ?thesis by simp
    next
      case (CycleNode c')
      with mn(1) c have "p \<notin> set (flatten_nodes c')" by simp
      with CycleNode m(2) show ?thesis by simp
    qed
  qed
  have 3: "\<exists>ns. deps_list E ig = Inr (map build_unit ns) \<and> distinct ns \<and>
               set ns = {n \<in> set (nodes (graph ig)). emitted n} \<and> File p \<notin> set ns \<and>
               ((\<forall>c. CycleNode c \<in> set (nodes (graph ig)) \<longrightarrow> p \<notin> set (flatten_nodes c))
                \<longrightarrow> (\<forall>u\<in>set (map build_unit ns). p \<notin> set u))"
    by (intro exI [of _ ?ns] conjI dl d s n u)
  from 1 2 3 show ?thesis by (intro conjI)
qed

section \<open>The worklist traversal\<close>

lemma get_file_deps_loop_sets:
  "get_file_deps_loop r ab imps res unres = (res', unres') \<Longrightarrow>
     set res' = set res \<union> {ab f |imp f. imp \<in> set imps \<and> r imp = Some f \<and> \<not> endswith f ''.so''} \<and>
     set unres' = set unres \<union> {imp \<in> set imps. r imp = None}"
proof (induction r ab imps res unres rule: get_file_deps_loop.induct)
  case (1 r ab resolved unresolved)
  then show ?case by simp
next
  case (2 r ab imp imps resolved unresolved)
  show ?case
  proof (cases "r imp")
    case None
    with 2 show ?thesis by auto
  next
    case (Some f)
    show ?thesis
    proof (cases "endswith f ''.so''")
      case True
      with Some 2 show ?thesis by auto
    next
      case False
      with Some 2 show ?thesis by auto
    qed
  qed
qed

lemma get_file_deps_sets:
  assumes "get_file_deps E pth x = (deps, broken)"
  shows "set deps = {abspath E f |imp f. imp \<in> set (scan_file E x) \<and>
                       resolve_import E pth x imp = Some f \<and> \<not> endswith f ''.so''}"
    and "set broken = {imp \<in> set (scan_file E x). resolve_import E pth x imp = None}"
  using get_file_deps_loop_sets [OF assms [unfolded get_file_deps_def]] by simp_all

lemma nodes_add_node: "set (nodes (add_node n g)) = insert n (set (nodes g))"
  by (auto simp: add_node_def)

lemma edges_add_node: "edges (add_node n g) = edges g"
  by (simp add: add_node_def)

lemma nodes_add_edge: "set (nodes (add_edge u v g)) = insert u (insert v (set (nodes g)))"
  by (auto simp: add_edge_def Let_def nodes_add_node)

lemma edges_add_edge: "set (edges (add_edge u v g)) = insert (u, v) (set (edges g))"
  by (auto simp: add_edge_def Let_def edges_add_node)

lemma fold_add_broken:
  "fold (add_broken x) imps b k =
     (if k = x \<and> imps \<noteq> [] then Some ((case b x of None \<Rightarrow> {} | Some S \<Rightarrow> S) \<union> set imps)
      else b k)"
proof (induction imps arbitrary: b)
  case Nil
  show ?case by simp
next
  case (Cons i imps)
  have "fold (add_broken x) (i # imps) b k = fold (add_broken x) imps (add_broken x i b) k"
    by simp
  also have "\<dots> = (if k = x \<and> imps \<noteq> []
      then Some ((case add_broken x i b x of None \<Rightarrow> {} | Some S \<Rightarrow> S) \<union> set imps)
      else add_broken x i b k)" by (rule Cons.IH)
  also have "\<dots> = (if k = x \<and> i # imps \<noteq> []
      then Some ((case b x of None \<Rightarrow> {} | Some S \<Rightarrow> S) \<union> set (i # imps)) else b k)"
    by (simp add: add_broken_def)
  finally show ?case .
qed




lemma scan_deps_result:
  "\<exists>new. queue (scan_deps x fs s) = queue s @ new \<and> seen (scan_deps x fs s) = seen s \<union> set new \<and>
     distinct new \<and>
     (\<forall>q\<in>set new. endswith q ''.py'' \<and> q \<notin> seen s \<and> File q \<notin> set (nodes (graph (obj s)))) \<and>
     path (obj (scan_deps x fs s)) = path (obj s) \<and>
     broken_deps (obj (scan_deps x fs s)) = broken_deps (obj s) \<and>
     set (edges (graph (obj (scan_deps x fs s)))) =
       set (edges (graph (obj s))) \<union> {(File x, File f) |f. f \<in> set fs} \<and>
     set (nodes (graph (obj s))) \<subseteq> set (nodes (graph (obj (scan_deps x fs s))))"
proof (induction fs arbitrary: s)
  case Nil
  show ?case by simp
next
  case (Cons f fs)
  define enq where "enq \<longleftrightarrow> File f \<notin> set (nodes (graph (obj s))) \<and> f \<notin> seen s \<and> endswith f ''.py''"
  define s1 where "s1 = (if enq then s\<lparr>queue := queue s @ [f], seen := insert f (seen s)\<rparr> else s)"
  define s2 where "s2 = s1\<lparr>obj := (obj s1)\<lparr>graph :=
      add_edge (File x) (File f) (add_node (File f) (graph (obj s1)))\<rparr>\<rparr>"
  have step: "scan_deps x (f # fs) s = scan_deps x fs s2"
    by (simp add: s2_def s1_def enq_def Let_def)
  have q2: "queue s2 = queue s @ (if enq then [f] else [])"
    and se2: "seen s2 = seen s \<union> (if enq then {f} else {})"
    and p2: "path (obj s2) = path (obj s)"
    and b2: "broken_deps (obj s2) = broken_deps (obj s)"
    and e2: "set (edges (graph (obj s2))) = insert (File x, File f) (set (edges (graph (obj s))))"
    and n2: "set (nodes (graph (obj s2))) = insert (File x) (insert (File f) (set (nodes (graph (obj s)))))"
    by (auto simp: s2_def s1_def edges_add_edge nodes_add_edge edges_add_node nodes_add_node)
  from Cons.IH [of s2] obtain new where new:
    "queue (scan_deps x fs s2) = queue s2 @ new" "seen (scan_deps x fs s2) = seen s2 \<union> set new"
    "distinct new"
    "\<forall>q\<in>set new. endswith q ''.py'' \<and> q \<notin> seen s2 \<and> File q \<notin> set (nodes (graph (obj s2)))"
    "path (obj (scan_deps x fs s2)) = path (obj s2)"
    "broken_deps (obj (scan_deps x fs s2)) = broken_deps (obj s2)"
    "set (edges (graph (obj (scan_deps x fs s2)))) =
       set (edges (graph (obj s2))) \<union> {(File x, File f) |f. f \<in> set fs}"
    "set (nodes (graph (obj s2))) \<subseteq> set (nodes (graph (obj (scan_deps x fs s2))))"
    by blast
  let ?new = "(if enq then [f] else []) @ new"
  have 1: "queue (scan_deps x (f # fs) s) = queue s @ ?new" using new(1) q2 step by simp
  have 2: "seen (scan_deps x (f # fs) s) = seen s \<union> set ?new" using new(2) se2 step by auto
  have 3: "distinct ?new" using new(3,4) n2 by auto
  have 4: "\<forall>q\<in>set ?new. endswith q ''.py'' \<and> q \<notin> seen s \<and> File q \<notin> set (nodes (graph (obj s)))"
    using new(4) se2 n2 by (auto simp: enq_def)
  have 5: "path (obj (scan_deps x (f # fs) s)) = path (obj s)" using new(5) p2 step by simp
  have 6: "broken_deps (obj (scan_deps x (f # fs) s)) = broken_deps (obj s)"
    using new(6) b2 step by simp
  have 7: "set (edges (graph (obj (scan_deps x (f # fs) s)))) =
       set (edges (graph (obj s))) \<union> {(File x, File f') |f'. f' \<in> set (f # fs)}"
    using new(7) e2 step by auto
  have 8: "set (nodes (graph (obj s))) \<subseteq> set (nodes (graph (obj (scan_deps x (f # fs) s))))"
    using new(8) n2 step by auto
  show ?case by (intro exI [of _ ?new] conjI 1 2 3 4 5 6 7 8)
qed

lemma passes_0: "passes E 0 s = s"
  by (simp add: passes_def)

lemma passes_Suc: "passes E (Suc n) s = visit E (passes E n s)"
  by (simp add: passes_def)

lemma passes_Suc': "passes E (Suc n) s = passes E n (visit E s)"
  by (simp add: passes_def funpow_swap1)

lemma passes_add: "passes E (m + n) s = passes E m (passes E n s)"
  by (simp add: passes_def funpow_add)

lemma visit_empty: "queue s = [] \<Longrightarrow> visit E s = s"
  by (simp add: visit_def)

lemma visit_result_ex:
  assumes q: "queue s = x # rest"
  shows "\<exists>new. queue (visit E s) = rest @ new \<and> seen (visit E s) = seen s \<union> set new \<and>
     distinct new \<and>
     (\<forall>q\<in>set new. endswith q ''.py'' \<and> q \<notin> seen s \<and> File q \<notin> set (nodes (graph (obj s))) \<and> q \<noteq> x) \<and>
     path (obj (visit E s)) = path (obj s) \<and>
     (\<forall>k. broken_deps (obj (visit E s)) k =
        (if k = x \<and> {imp \<in> set (scan_file E x). resolve_import E (path (obj s)) x imp = None} \<noteq> {}
         then Some ((case broken_deps (obj s) x of None \<Rightarrow> {} | Some S \<Rightarrow> S) \<union>
                {imp \<in> set (scan_file E x). resolve_import E (path (obj s)) x imp = None})
         else broken_deps (obj s) k)) \<and>
     set (edges (graph (obj (visit E s)))) =
       set (edges (graph (obj s))) \<union>
       {(File x, File (abspath E f)) |imp f. imp \<in> set (scan_file E x) \<and>
          resolve_import E (path (obj s)) x imp = Some f \<and> \<not> endswith f ''.so''} \<and>
     insert (File x) (set (nodes (graph (obj s)))) \<subseteq> set (nodes (graph (obj (visit E s))))"
proof -
  obtain deps broken where gfd: "get_file_deps E (path (obj s)) x = (deps, broken)"
    by (cases "get_file_deps E (path (obj s)) x")
  note sets = get_file_deps_sets [OF gfd]
  define s0 where "s0 = s\<lparr>queue := rest, obj := (obj s)\<lparr>graph := add_node (File x) (graph (obj s)),
      broken_deps := fold (add_broken x) broken (broken_deps (obj s))\<rparr>\<rparr>"
  have v: "visit E s = scan_deps x deps s0"
    using q gfd by (simp add: visit_def s0_def Let_def)
  have s0: "queue s0 = rest" "seen s0 = seen s" "path (obj s0) = path (obj s)"
    "broken_deps (obj s0) = fold (add_broken x) broken (broken_deps (obj s))"
    "set (nodes (graph (obj s0))) = insert (File x) (set (nodes (graph (obj s))))"
    "set (edges (graph (obj s0))) = set (edges (graph (obj s)))"
    by (simp_all add: s0_def nodes_add_node edges_add_node)
  from scan_deps_result [of x deps s0] obtain new where new:
    "queue (scan_deps x deps s0) = queue s0 @ new"
    "seen (scan_deps x deps s0) = seen s0 \<union> set new"
    "distinct new"
    "\<forall>q\<in>set new. endswith q ''.py'' \<and> q \<notin> seen s0 \<and> File q \<notin> set (nodes (graph (obj s0)))"
    "path (obj (scan_deps x deps s0)) = path (obj s0)"
    "broken_deps (obj (scan_deps x deps s0)) = broken_deps (obj s0)"
    "set (edges (graph (obj (scan_deps x deps s0)))) =
       set (edges (graph (obj s0))) \<union> {(File x, File f) |f. f \<in> set deps}"
    "set (nodes (graph (obj s0))) \<subseteq> set (nodes (graph (obj (scan_deps x deps s0))))"
    by blast
  have 1: "queue (visit E s) = rest @ new" using new(1) s0(1) v by simp
  have 2: "seen (visit E s) = seen s \<union> set new" using new(2) s0(2) v by simp
  have 4: "\<forall>q\<in>set new. endswith q ''.py'' \<and> q \<notin> seen s \<and>
      File q \<notin> set (nodes (graph (obj s))) \<and> q \<noteq> x"
    using new(4) s0(2,5) by auto
  have 5: "path (obj (visit E s)) = path (obj s)" using new(5) s0(3) v by simp
  have 6: "\<forall>k. broken_deps (obj (visit E s)) k =
        (if k = x \<and> {imp \<in> set (scan_file E x). resolve_import E (path (obj s)) x imp = None} \<noteq> {}
         then Some ((case broken_deps (obj s) x of None \<Rightarrow> {} | Some S \<Rightarrow> S) \<union>
                {imp \<in> set (scan_file E x). resolve_import E (path (obj s)) x imp = None})
         else broken_deps (obj s) k)"
    unfolding v new(6) s0(4) fold_add_broken sets(2) [symmetric] by simp
  have 7: "set (edges (graph (obj (visit E s)))) =
       set (edges (graph (obj s))) \<union>
       {(File x, File (abspath E f)) |imp f. imp \<in> set (scan_file E x) \<and>
          resolve_import E (path (obj s)) x imp = Some f \<and> \<not> endswith f ''.so''}"
    unfolding v new(7) s0(6) sets(1) by auto
  have 8: "insert (File x) (set (nodes (graph (obj s)))) \<subseteq> set (nodes (graph (obj (visit E s))))"
    using new(8) s0(5) v by simp
  show ?thesis by (intro exI [of _ new] conjI 1 2 new(3) 4 5 6 7 8)
qed

lemma visit_edges:
  assumes "queue s = x # rest"
  shows "set (edges (graph (obj (visit E s)))) =
       set (edges (graph (obj s))) \<union>
       {(File x, File (abspath E f)) |imp f. imp \<in> set (scan_file E x) \<and>
          resolve_import E (path (obj s)) x imp = Some f \<and> \<not> endswith f ''.so''}"
  using visit_result_ex [OF assms, of E] by (elim exE conjE)


lemma visit_nodes:
  assumes "queue s = x # rest"
  shows "insert (File x) (set (nodes (graph (obj s)))) \<subseteq> set (nodes (graph (obj (visit E s))))"
  using visit_result_ex [OF assms, of E] by (elim exE conjE)

lemma visit_result:
  assumes "queue s = x # rest"
  obtains new where "queue (visit E s) = rest @ new" and "seen (visit E s) = seen s \<union> set new"
    and "distinct new" and "\<forall>q\<in>set new. endswith q ''.py''" and "\<forall>q\<in>set new. q \<notin> seen s"
    and "\<forall>q\<in>set new. File q \<notin> set (nodes (graph (obj s)))" and "\<forall>q\<in>set new. q \<noteq> x"
proof -
  from visit_result_ex [OF assms, of E] obtain new where
    1: "queue (visit E s) = rest @ new" and 2: "seen (visit E s) = seen s \<union> set new"
    and 3: "distinct new"
    and 4: "\<forall>q\<in>set new. endswith q ''.py'' \<and> q \<notin> seen s \<and>
          File q \<notin> set (nodes (graph (obj s))) \<and> q \<noteq> x"
    by (elim exE conjE)
  from 4 have "\<forall>q\<in>set new. endswith q ''.py''" "\<forall>q\<in>set new. q \<notin> seen s"
    "\<forall>q\<in>set new. File q \<notin> set (nodes (graph (obj s)))" "\<forall>q\<in>set new. q \<noteq> x"
    by simp_all
  with 1 2 3 show ?thesis by (rule that)
qed

lemma visit_path: "path (obj (visit E s)) = path (obj s)"
proof (cases "queue s")
  case Nil
  then show ?thesis by (simp add: visit_empty)
next
  case (Cons x rest)
  from visit_result_ex [OF this, of E] show ?thesis by (elim exE conjE)
qed

lemma visit_edges_mono: "set (edges (graph (obj s))) \<subseteq> set (edges (graph (obj (visit E s))))"
proof (cases "queue s")
  case Nil
  then show ?thesis by (simp add: visit_empty)
next
  case (Cons x rest)
  show ?thesis unfolding visit_edges [OF Cons] by (rule Un_upper1)
qed

lemma visit_nodes_mono: "set (nodes (graph (obj s))) \<subseteq> set (nodes (graph (obj (visit E s))))"
proof (cases "queue s")
  case Nil
  then show ?thesis by (simp add: visit_empty)
next
  case (Cons x rest)
  from visit_nodes [OF this, of E] show ?thesis by simp
qed






lemma visit_queue_suffix:
  assumes "\<forall>q\<in>set (queue s). q = seed \<or> endswith q ''.py''"
  shows "\<forall>q\<in>set (queue (visit E s)). q = seed \<or> endswith q ''.py''"
proof (cases "queue s")
  case Nil
  with assms show ?thesis by (simp add: visit_empty)
next
  case (Cons x rest)
  from visit_result [OF Cons, of E] obtain new where new:
    "queue (visit E s) = rest @ new" "\<forall>q\<in>set new. endswith q ''.py''" .
  with assms Cons show ?thesis by auto
qed

lemma passes_path: "path (obj (passes E n s)) = path (obj s)"
  by (induction n) (simp_all add: passes_0 passes_Suc visit_path)


lemma passes_queue_suffix:
  "\<forall>q\<in>set (queue s). q = seed \<or> endswith q ''.py'' \<Longrightarrow>
   \<forall>q\<in>set (queue (passes E n s)). q = seed \<or> endswith q ''.py''"
  by (induction n) (simp_all add: passes_0 passes_Suc visit_queue_suffix)

lemma passes_edges_mono:
  "set (edges (graph (obj s))) \<subseteq> set (edges (graph (obj (passes E n s))))"
proof (induction n)
  case 0
  show ?case by (simp add: passes_0)
next
  case (Suc n)
  with visit_edges_mono [of "passes E n s" E] show ?case by (auto simp: passes_Suc)
qed



lemma passes_empty: "queue s = [] \<Longrightarrow> passes E n s = s"
  by (induction n) (simp_all add: passes_0 passes_Suc visit_empty)

lemma passes_stationary:
  assumes "queue (passes E k s) = []" and "k \<le> n"
  shows "passes E n s = passes E k s"
proof -
  from assms(2) obtain d where "n = d + k" by (metis le_add_diff_inverse2)
  then show ?thesis using assms(1) by (simp add: passes_add passes_empty)
qed


lemma walk_passes:
  assumes "walk E s = Some s'"
  shows "\<exists>k. s' = passes E k s \<and> queue s' = []"
proof (rule walk.raw_induct [where P = "\<lambda>E s s'. \<exists>k. s' = passes E k s \<and> queue s' = []", OF _ assms])
  fix wlk E s s'
  assume IH: "\<And>E s s'. wlk E s = Some s' \<Longrightarrow> \<exists>k. s' = passes E k s \<and> queue s' = []"
    and eq: "(if queue s = [] then Some s else wlk E (visit E s)) = Some s'"
  show "\<exists>k. s' = passes E k s \<and> queue s' = []"
  proof (cases "queue s = []")
    case True
    with eq have "s' = passes E 0 s" "queue s' = []" by (simp_all add: passes_0)
    then show ?thesis by blast
  next
    case False
    with eq have "wlk E (visit E s) = Some s'" by simp
    from IH [OF this] obtain k where "s' = passes E k (visit E s)" "queue s' = []" by blast
    then have "s' = passes E (Suc k) s" "queue s' = []" by (simp_all add: passes_Suc')
    then show ?thesis by blast
  qed
qed



section \<open>Resolved and unresolved imports\<close>

lemma passes_later_edges:
  assumes "n < m"
  shows "set (edges (graph (obj (passes E (Suc n) s)))) \<subseteq> set (edges (graph (obj (passes E m s))))"
proof -
  from assms obtain d where "m = d + Suc n" by (metis Suc_leI le_add_diff_inverse2)
  then show ?thesis by (simp only: passes_add passes_edges_mono)
qed


lemma add_file_recursive_passes:
  assumes "add_file_recursive E seed ig = Some ig'"
  shows "\<exists>k. ig' = obj (passes E k (traversal_start seed ig)) \<and>
             queue (passes E k (traversal_start seed ig)) = []"
proof -
  from assms obtain s' where "walk E (traversal_start seed ig) = Some s'" "ig' = obj s'"
    by (auto simp: add_file_recursive_def)
  with walk_passes [of E "traversal_start seed ig" s'] show ?thesis by auto
qed

lemma final_after_dequeue:
  assumes "queue (passes E n s) = x # rest" and "queue (passes E k s) = []"
  shows "n < k"
proof (rule ccontr)
  assume "\<not> n < k"
  then have "k \<le> n" by simp
  from passes_stationary [OF assms(2) this] assms show False by simp
qed






section \<open>Targets that are not source files\<close>

lemma scan_deps_nodes_mono:
  "set (nodes (graph (obj s))) \<subseteq> set (nodes (graph (obj (scan_deps x fs s))))"
  using scan_deps_result [of x fs s] by (elim exE conjE)

lemma scan_deps_targets:
  "f \<in> set fs \<Longrightarrow> File f \<in> set (nodes (graph (obj (scan_deps x fs s))))"
proof (induction fs arbitrary: s)
  case Nil
  then show ?case by simp
next
  case (Cons f' fs)
  define s1 where "s1 = (if File f' \<notin> set (nodes (graph (obj s))) \<and> f' \<notin> seen s \<and> endswith f' ''.py''
      then s\<lparr>queue := queue s @ [f'], seen := insert f' (seen s)\<rparr> else s)"
  define s2 where "s2 = s1\<lparr>obj := (obj s1)\<lparr>graph :=
      add_edge (File x) (File f') (add_node (File f') (graph (obj s1)))\<rparr>\<rparr>"
  have step: "scan_deps x (f' # fs) s = scan_deps x fs s2"
    by (simp add: s2_def s1_def Let_def)
  show ?case
  proof (cases "f = f'")
    case True
    have "File f' \<in> set (nodes (graph (obj s2)))" by (simp add: s2_def nodes_add_edge)
    with scan_deps_nodes_mono [of s2 x fs] show ?thesis unfolding step True by blast
  next
    case False
    with Cons.prems have "f \<in> set fs" by simp
    then show ?thesis unfolding step by (rule Cons.IH)
  qed
qed

lemma visit_targets:
  assumes q: "queue s = x # rest" and "imp \<in> set (scan_file E x)"
    and "resolve_import E (path (obj s)) x imp = Some f" and "\<not> endswith f ''.so''"
  shows "File (abspath E f) \<in> set (nodes (graph (obj (visit E s))))"
proof -
  obtain deps broken where gfd: "get_file_deps E (path (obj s)) x = (deps, broken)"
    by (cases "get_file_deps E (path (obj s)) x")
  from assms(2,3,4) have "abspath E f \<in> set deps"
    unfolding get_file_deps_sets(1) [OF gfd] by blast
  then have "File (abspath E f) \<in> set (nodes (graph (obj (scan_deps x deps s0))))" for s0
    by (rule scan_deps_targets)
  then show ?thesis using q gfd by (simp add: visit_def Let_def)
qed

lemma passes_nodes_mono:
  "set (nodes (graph (obj s))) \<subseteq> set (nodes (graph (obj (passes E n s))))"
proof (induction n)
  case 0
  show ?case by (simp add: passes_0)
next
  case (Suc n)
  with visit_nodes_mono [of "passes E n s" E] show ?case by (auto simp: passes_Suc)
qed

lemma passes_later_nodes:
  assumes "n < m"
  shows "set (nodes (graph (obj (passes E (Suc n) s)))) \<subseteq> set (nodes (graph (obj (passes E m s))))"
proof -
  from assms obtain d where "m = d + Suc n" by (metis Suc_leI le_add_diff_inverse2)
  then show ?thesis by (simp only: passes_add passes_nodes_mono)
qed

lemma passes_sources:
  assumes "\<And>m. t \<notin> set (queue (passes E m s))"
  shows "(File t, v) \<in> set (edges (graph (obj (passes E m s)))) \<Longrightarrow>
         (File t, v) \<in> set (edges (graph (obj s)))"
proof (induction m)
  case 0
  then show ?case by (simp add: passes_0)
next
  case (Suc m)
  show ?case
  proof (cases "queue (passes E m s)")
    case Nil
    with Suc show ?thesis by (simp add: passes_Suc visit_empty)
  next
    case (Cons y rest)
    with assms [of m] have "y \<noteq> t" by auto
    with Suc.prems have "(File t, v) \<in> set (edges (graph (obj (passes E m s))))"
      unfolding passes_Suc visit_edges [OF Cons] by auto
    then show ?thesis by (rule Suc.IH)
  qed
qed

section \<open>The broken-dependency registry\<close>








section \<open>Collapsing all cycles\<close>

lemma nested_absentD:
  "nested_absent g \<Longrightarrow> CycleNode c \<in> set (nodes g) \<Longrightarrow> d \<in> set (descendants c) \<Longrightarrow>
   d \<notin> set (nodes g)"
  unfolding nested_absent_def list_all_iff by fastforce

lemma nested_absentI:
  assumes "\<And>c d. CycleNode c \<in> set (nodes g) \<Longrightarrow> d \<in> set (descendants c) \<Longrightarrow> d \<notin> set (nodes g)"
  shows "nested_absent g"
  unfolding nested_absent_def list_all_iff using assms by (auto split: node.splits)

lemma self_below: "n \<in> set (below n)"
  by (cases n) simp_all

lemma members_descendants: "set (cycle_nodes c) \<subseteq> set (descendants c)"
  by (cases c) (auto simp: cycle_nodes_def intro: self_below)

lemma descendants_member:
  "d \<in> set (descendants c) \<longleftrightarrow> (\<exists>m\<in>set (cycle_nodes c). d \<in> set (below m))"
  by (cases c) (auto simp: cycle_nodes_def)

lemma descendants_trans:
  "CycleNode d \<in> set (descendants c) \<Longrightarrow> set (descendants d) \<subseteq> set (descendants c)"
  "CycleNode d \<in> set (below n) \<Longrightarrow> set (descendants d) \<subseteq> set (below n)"
proof (induction c and n arbitrary: d and d rule: descendants_below.induct)
  case (1 es r)
  from 1(2) obtain m where m: "m \<in> set (map fst es)" "CycleNode d \<in> set (below m)" by auto
  from 1(1) [OF m] have "set (descendants d) \<subseteq> set (below m)" .
  with m(1) show ?case by auto
next
  case (2 c)
  show ?case
  proof (cases "d = c")
    case True
    then show ?thesis by auto
  next
    case False
    with 2(2) have "CycleNode d \<in> set (descendants c)" by simp
    from 2(1) [OF this] show ?thesis by auto
  qed
next
  case (3 p)
  then show ?case by simp
qed

lemma new_cycle_fresh:
  assumes "nested_absent g" and "cycle_nodes c \<noteq> []" and "set (cycle_nodes c) \<subseteq> set (nodes g)"
  shows "CycleNode c \<notin> set (nodes g)"
proof
  assume in_g: "CycleNode c \<in> set (nodes g)"
  from assms(2) obtain m where m: "m \<in> set (cycle_nodes c)" by (cases "cycle_nodes c") auto
  with members_descendants have "m \<in> set (descendants c)" by blast
  from nested_absentD [OF assms(1) in_g this] m assms(3) show False by blast
qed

lemma new_cycle_not_nested:
  assumes "nested_absent g" and "cycle_nodes c \<noteq> []" and "set (cycle_nodes c) \<subseteq> set (nodes g)"
    and "CycleNode d \<in> set (nodes g)"
  shows "CycleNode c \<notin> set (descendants d)"
proof
  assume "CycleNode c \<in> set (descendants d)"
  then have sub: "set (descendants c) \<subseteq> set (descendants d)" by (rule descendants_trans)
  from assms(2) obtain m where m: "m \<in> set (cycle_nodes c)" by (cases "cycle_nodes c") auto
  with members_descendants sub have "m \<in> set (descendants d)" by blast
  from nested_absentD [OF assms(1,4) this] m assms(3) show False by blast
qed

lemma extract_cycle_nested_absent:
  assumes na: "nested_absent g" and ne: "cycle_nodes c \<noteq> []"
    and sub: "set (cycle_nodes c) \<subseteq> set (nodes g)"
    and N: "set (nodes g') = insert (CycleNode c) (set (nodes g) - set (cycle_nodes c))"
  shows "nested_absent g'"
proof (rule nested_absentI)
  fix e d assume e: "CycleNode e \<in> set (nodes g')" and d: "d \<in> set (descendants e)"
  have fresh: "CycleNode c \<notin> set (nodes g)" using na ne sub by (rule new_cycle_fresh)
  have old: "x \<notin> set (nodes g')" if "CycleNode e' \<in> set (nodes g)" "x \<in> set (descendants e')"
    for e' x
  proof -
    from nested_absentD [OF na that] have "x \<notin> set (nodes g)" .
    moreover from new_cycle_not_nested [OF na ne sub that(1)] that(2) have "x \<noteq> CycleNode c"
      by auto
    ultimately show ?thesis unfolding N by simp
  qed
  show "d \<notin> set (nodes g')"
  proof (cases "e = c")
    case False
    with e have "CycleNode e \<in> set (nodes g)" unfolding N by simp
    from old [OF this d] show ?thesis .
  next
    case True
    with d obtain m where m: "m \<in> set (cycle_nodes c)" "d \<in> set (below m)"
      unfolding descendants_member by blast
    show ?thesis
    proof (cases "d = m")
      case True
      with m(1) sub fresh show ?thesis unfolding N by auto
    next
      case False
      with m(2) obtain m' where m': "m = CycleNode m'" "d \<in> set (descendants m')"
        by (cases m) auto
      from m(1) sub m'(1) have "CycleNode m' \<in> set (nodes g)" by auto
      from old [OF this m'(2)] show ?thesis .
    qed
  qed
qed

lemma is_cycle_internal:
  assumes "is_cycle g es"
  shows "hd es \<in> set (edges g) \<and> internal (Cycle es r) (hd es)"
proof -
  from assms have ne: "es \<noteq> []" and sub: "set es \<subseteq> set (edges g)"
    and rot: "map snd es = rotate1 (map fst es)" by (simp_all add: is_cycle_def)
  from ne have h: "hd es \<in> set es" by simp
  then have "snd (hd es) \<in> set (map snd es)" by simp
  then have "snd (hd es) \<in> set (map fst es)" unfolding rot by simp
  with h sub show ?thesis by (auto simp: internal_def contains_def cycle_nodes_def)
qed

lemma extract_cycle_fewer_edges:
  assumes "wf_digraph g" and "wf_digraph g'" and "e \<in> set (edges g)" and "internal c e"
    and E: "set (edges g') =
      (\<lambda>e. (contract c (fst e), contract c (snd e))) ` {e \<in> set (edges g). \<not> internal c e}"
  shows "length (edges g') < length (edges g)"
proof -
  let ?keep = "{e \<in> set (edges g). \<not> internal c e}"
  have "card (set (edges g')) \<le> card ?keep" unfolding E by (rule card_image_le) simp
  also have "?keep \<subset> set (edges g)" using assms(3,4) by blast
  then have "card ?keep < card (set (edges g))" by (intro psubset_card_mono) simp_all
  finally have "card (set (edges g')) < card (set (edges g))" .
  moreover have "distinct (edges g)" "distinct (edges g')"
    using assms(1,2) by (simp_all add: wf_digraph_def)
  ultimately show ?thesis by (simp add: distinct_card)
qed


section \<open>A cycle search that meets the assumption\<close>
















lemma is_cycle_members:
  assumes "wf_digraph g" and "is_cycle g es"
  shows "cycle_nodes (Cycle es r) \<noteq> []" and "distinct (cycle_nodes (Cycle es r))"
    and "set (cycle_nodes (Cycle es r)) \<subseteq> set (nodes g)"
    and "\<forall>m\<in>set (cycle_nodes (Cycle es r)). \<exists>v. (m, v) \<in> set (edges g)"
proof -
  have mem: "cycle_nodes (Cycle es r) = map fst es" by (simp add: cycle_nodes_def)
  from assms(2) show "cycle_nodes (Cycle es r) \<noteq> []" "distinct (cycle_nodes (Cycle es r))"
    unfolding mem by (simp_all add: is_cycle_def)
  from assms(2) have inE: "set es \<subseteq> set (edges g)" by (simp add: is_cycle_def)
  show src: "\<forall>m\<in>set (cycle_nodes (Cycle es r)). \<exists>v. (m, v) \<in> set (edges g)"
  proof
    fix m assume "m \<in> set (cycle_nodes (Cycle es r))"
    then obtain e where "e \<in> set es" "m = fst e" unfolding mem by auto
    with inE have "(m, snd e) \<in> set (edges g)" by auto
    then show "\<exists>v. (m, v) \<in> set (edges g)" ..
  qed
  show "set (cycle_nodes (Cycle es r)) \<subseteq> set (nodes g)"
  proof
    fix m assume "m \<in> set (cycle_nodes (Cycle es r))"
    with src obtain v where "(m, v) \<in> set (edges g)" by blast
    from wf_digraph_ends [OF assms(1) this] show "m \<in> set (nodes g)" ..
  qed
qed

lemma extract_cycle_keeps_sink:
  assumes wf: "wf_digraph g" and cyc: "is_cycle g es" and na: "nested_absent g"
    and sink: "sink_with_source n g" and ex: "extract_cycle (Cycle es r) g = Inr g1"
  shows "sink_with_source n g1"
proof -
  let ?c = "Cycle es r"
  let ?f = "\<lambda>e. (contract ?c (fst e), contract ?c (snd e))"
  note m = is_cycle_members [OF wf cyc, of r]
  have fresh: "CycleNode ?c \<notin> set (nodes g)" using na m(1,3) by (rule new_cycle_fresh)
  from extract_cycle_ok [OF wf fresh m(2,3)] ex have
    N1: "nodes g1 = filter (\<lambda>n. \<not> contains ?c n) (nodes g) @ [CycleNode ?c]"
    and E1: "set (edges g1) = ?f ` {e \<in> set (edges g). \<not> internal ?c e}" by auto
  from sink have n: "n \<in> set (nodes g)" and out: "\<forall>e\<in>set (edges g). fst e \<noteq> n"
    and inc: "\<exists>e\<in>set (edges g). snd e = n" by (simp_all add: sink_with_source_def)
  have nm: "\<not> contains ?c n"
  proof
    assume "contains ?c n"
    then have "n \<in> set (cycle_nodes ?c)" by (simp add: contains_def)
    with m(4) obtain v where "(n, v) \<in> set (edges g)" by blast
    with out show False by auto
  qed
  have 1: "n \<in> set (nodes g1)" unfolding N1 using n nm by simp
  have 2: "\<forall>e\<in>set (edges g1). fst e \<noteq> n"
  proof
    fix e assume "e \<in> set (edges g1)"
    then obtain e0 where e0: "e0 \<in> set (edges g)" "e = ?f e0" unfolding E1 by blast
    show "fst e \<noteq> n"
    proof (cases "contains ?c (fst e0)")
      case True
      with e0(2) have "fst e = CycleNode ?c" by (simp add: contract_def)
      with fresh n show ?thesis by auto
    next
      case False
      with e0(2) have "fst e = fst e0" by (simp add: contract_def)
      with out e0(1) show ?thesis by simp
    qed
  qed
  from inc obtain e0 where e0: "e0 \<in> set (edges g)" "snd e0 = n" by blast
  with nm have "\<not> internal ?c e0" by (simp add: internal_def)
  with e0(1) have "?f e0 \<in> set (edges g1)" unfolding E1 by blast
  moreover have "snd (?f e0) = n" using e0(2) nm by (simp add: contract_def)
  ultimately have 3: "\<exists>e\<in>set (edges g1). snd e = n" by blast
  from 1 2 3 show ?thesis by (simp add: sink_with_source_def)
qed

lemma collapse_loop_keeps_sink:
  assumes ok: "find_cycle_ok (find_cycle E)"
  shows "wf_digraph g \<Longrightarrow> nested_absent g \<Longrightarrow> sink_with_source n g \<Longrightarrow>
         collapse_loop E pfx g = Some (Inr g') \<Longrightarrow> sink_with_source n g'"
proof (induction "length (edges g)" arbitrary: g rule: less_induct)
  case less
  from ok less.prems(1) have spec:
    "case find_cycle E g of None \<Rightarrow> acyclic (set (edges g)) | Some es \<Rightarrow> is_cycle g es"
    by (simp add: find_cycle_ok_def)
  show ?case
  proof (cases "find_cycle E g")
    case None
    with less.prems(4) have "g' = g" by (subst (asm) collapse_loop.simps) simp
    with less.prems(3) show ?thesis by simp
  next
    case (Some es)
    with spec have cyc: "is_cycle g es" by simp
    let ?c = "Cycle es pfx"
    note m = is_cycle_members [OF less.prems(1) cyc, of pfx]
    have fresh: "CycleNode ?c \<notin> set (nodes g)" using less.prems(2) m(1,3) by (rule new_cycle_fresh)
    from extract_cycle_ok [OF less.prems(1) fresh m(2,3)] obtain g1 where
      ex: "extract_cycle ?c g = Inr g1" and wf1: "wf_digraph g1"
      and N1: "nodes g1 = filter (\<lambda>n. \<not> contains ?c n) (nodes g) @ [CycleNode ?c]"
      and E1: "set (edges g1) = (\<lambda>e. (contract ?c (fst e), contract ?c (snd e))) `
                 {e \<in> set (edges g). \<not> internal ?c e}" by blast
    have N1': "set (nodes g1) = insert (CycleNode ?c) (set (nodes g) - set (cycle_nodes ?c))"
      unfolding N1 by (auto simp: contains_def)
    have na1: "nested_absent g1"
      using less.prems(2) m(1,3) N1' by (rule extract_cycle_nested_absent)
    from is_cycle_internal [OF cyc, of pfx] have
      "hd es \<in> set (edges g)" "internal ?c (hd es)" by simp_all
    with less.prems(1) wf1 have lt: "length (edges g1) < length (edges g)"
      using E1 by (rule extract_cycle_fewer_edges)
    have s1: "sink_with_source n g1"
      using less.prems(1) cyc less.prems(2,3) ex by (rule extract_cycle_keeps_sink)
    from Some ex less.prems(4) have "collapse_loop E pfx g1 = Some (Inr g')"
      by (subst (asm) collapse_loop.simps) simp
    from less.hyps [OF lt wf1 na1 s1 this] show ?thesis .
  qed
qed

section \<open>Target-only nodes from the builder to the build order\<close>

lemma collapse_cycles_loop:
  assumes "collapse_cycles E ig = Some (Inr ig')"
  shows "\<exists>pfx. collapse_loop E pfx (graph ig) = Some (Inr (graph ig'))"
proof (cases "find_root E False ig")
  case (Inl err)
  with assms show ?thesis by (simp add: collapse_cycles_def)
next
  case (Inr res)
  obtain pfx ig0 where res: "res = (pfx, ig0)" by (cases res)
  with Inr have fr: "find_root E False ig = Inr (pfx, ig0)" by simp
  then have g0: "graph ig0 = graph ig"
    by (auto simp: find_root_def recompute_root_def split: option.splits sum.splits if_splits)
  from assms fr have "map_option (map_sum id (\<lambda>g. ig0\<lparr>graph := g\<rparr>))
      (collapse_loop E pfx (graph ig0)) = Some (Inr ig')"
    by (simp add: collapse_cycles_def)
  then obtain z :: "error + digraph"
    where z: "collapse_loop E pfx (graph ig0) = Some z"
      "map_sum id (\<lambda>g. ig0\<lparr>graph := g\<rparr>) z = Inr ig'" by auto
  from z(2) obtain g where "z = Inr g" "ig' = ig0\<lparr>graph := g\<rparr>" by (cases z) auto
  with z(1) g0 have "collapse_loop E pfx (graph ig) = Some (Inr (graph ig'))" by simp
  then show ?thesis ..
qed

text \<open>
  Claim C7. Let \<open>x\<close> be the file dequeued in pass \<open>n\<close> of a traversal, and let a specifier
  of \<open>x\<close> resolve to a path other than the seed whose absolute form \<open>t\<close> ends neither in
  \<open>.so\<close> nor in \<open>.py\<close>. Then after that pass and ever after the graph has the node \<open>t\<close>
  and the edge from \<open>x\<close> to \<open>t\<close>; \<open>t\<close> is never in the worklist, so the traversal gives
  it no outgoing edge; the graph the traversal returns has the node and the edge; and for
  every topological order of that graph the library may return, \<open>x\<close> stands before \<open>t\<close>
  in the order while \<open>deps_list\<close> returns units for the emitted nodes only, \<open>t\<close> not being
  one of them. The last holds for every graph: a path node that does not end in \<open>.py\<close>
  is in the order, after the source of each edge into it, and gets no unit. In between,
  \<open>collapse_cycles\<close> keeps every node that has an edge into it and none out of it, and
  keeps it such a node; \<open>t\<close> is one in the graph the traversal returns when the initial
  graph has no edge out of it.
\<close>

theorem non_source_target_kept_not_emitted:
  assumes "queue (passes E n (traversal_start seed ig)) = x # rest"
    and "imp \<in> set (scan_file E x)"
    and "resolve_import E (path ig) x imp = Some f"
    and "\<not> endswith f ''.so''"
    and "t = abspath E f" and "\<not> endswith t ''.py''" and "t \<noteq> seed"
  shows "(\<forall>m>n. File t \<in> set (nodes (graph (obj (passes E m (traversal_start seed ig))))) \<and>
              (File x, File t) \<in> set (edges (graph (obj (passes E m (traversal_start seed ig)))))) \<and>
         (\<forall>m. t \<notin> set (queue (passes E m (traversal_start seed ig)))) \<and>
         (\<forall>m v. (File t, v) \<in> set (edges (graph (obj (passes E m (traversal_start seed ig))))) \<longrightarrow>
                (File t, v) \<in> set (edges (graph ig))) \<and>
         (\<forall>ig'. add_file_recursive E seed ig = Some ig' \<longrightarrow>
            File t \<in> set (nodes (graph ig')) \<and> (File x, File t) \<in> set (edges (graph ig')) \<and>
            (\<forall>order. topological_sort E (graph ig') = Some order \<and>
                     topological_order (graph ig') order \<longrightarrow>
               precedes (File x) (File t) order \<and>
               (\<exists>ns. deps_list E ig' = Inr (map build_unit ns) \<and> distinct ns \<and>
                     set ns = {n \<in> set (nodes (graph ig')). emitted n} \<and> File t \<notin> set ns)) \<and>
            ((\<forall>e\<in>set (edges (graph ig)). fst e \<noteq> File t) \<longrightarrow>
               sink_with_source (File t) (graph ig'))) \<and>
         (\<forall>ig2 order p. topological_sort E (graph ig2) = Some order \<and>
                 topological_order (graph ig2) order \<and>
                 File p \<in> set (nodes (graph ig2)) \<and> \<not> endswith p ''.py'' \<longrightarrow>
            File p \<in> set order \<and>
            (\<forall>k. (k, File p) \<in> set (edges (graph ig2)) \<longrightarrow> precedes k (File p) order) \<and>
            (\<exists>ns. deps_list E ig2 = Inr (map build_unit ns) \<and> distinct ns \<and>
                  set ns = {n \<in> set (nodes (graph ig2)). emitted n} \<and> File p \<notin> set ns \<and>
                  ((\<forall>c. CycleNode c \<in> set (nodes (graph ig2)) \<longrightarrow> p \<notin> set (flatten_nodes c))
                   \<longrightarrow> (\<forall>u\<in>set (map build_unit ns). p \<notin> set u)))) \<and>
         (\<forall>ig1 ig2 n. find_cycle_ok (find_cycle E) \<and> wf_digraph (graph ig1) \<and>
                 nested_absent (graph ig1) \<and> sink_with_source n (graph ig1) \<and>
                 collapse_cycles E ig1 = Some (Inr ig2) \<longrightarrow>
            sink_with_source n (graph ig2))"
proof -
  let ?s = "traversal_start seed ig"
  have p: "path (obj (passes E n ?s)) = path ig"
    by (simp add: passes_path traversal_start_def)
  have r: "resolve_import E (path (obj (passes E n ?s))) x imp = Some f"
    unfolding p by (rule assms(3))
  have "(File x, File t) \<in> set (edges (graph (obj (visit E (passes E n ?s)))))"
    unfolding visit_edges [OF assms(1)] p assms(5) using assms(2,3,4) by blast
  then have e_now: "(File x, File t) \<in> set (edges (graph (obj (passes E (Suc n) ?s))))"
    by (simp add: passes_Suc)
  have "File t \<in> set (nodes (graph (obj (visit E (passes E n ?s)))))"
    unfolding assms(5) using assms(1,2) r assms(4) by (rule visit_targets)
  then have n_now: "File t \<in> set (nodes (graph (obj (passes E (Suc n) ?s))))"
    by (simp add: passes_Suc)
  have later: "File t \<in> set (nodes (graph (obj (passes E m ?s)))) \<and>
      (File x, File t) \<in> set (edges (graph (obj (passes E m ?s))))" if "n < m" for m
    using passes_later_edges [OF that, of E ?s] passes_later_nodes [OF that, of E ?s] e_now n_now
    by blast
  have "\<forall>q\<in>set (queue ?s). q = seed \<or> endswith q ''.py''"
    by (simp add: traversal_start_def)
  then have "\<forall>q\<in>set (queue (passes E m ?s)). q = seed \<or> endswith q ''.py''" for m
    by (rule passes_queue_suffix)
  with assms(6,7) have never: "t \<notin> set (queue (passes E m ?s))" for m by blast
  have src: "(File t, v) \<in> set (edges (graph ig))"
    if "(File t, v) \<in> set (edges (graph (obj (passes E m ?s))))" for m v
  proof -
    from never that have "(File t, v) \<in> set (edges (graph (obj ?s)))" by (rule passes_sources)
    then show ?thesis by (simp add: traversal_start_def)
  qed
  have units: "File p \<in> set order \<and>
            (\<forall>k. (k, File p) \<in> set (edges (graph ig2)) \<longrightarrow> precedes k (File p) order) \<and>
            (\<exists>ns. deps_list E ig2 = Inr (map build_unit ns) \<and> distinct ns \<and>
                  set ns = {n \<in> set (nodes (graph ig2)). emitted n} \<and> File p \<notin> set ns \<and>
                  ((\<forall>c. CycleNode c \<in> set (nodes (graph ig2)) \<longrightarrow> p \<notin> set (flatten_nodes c))
                   \<longrightarrow> (\<forall>u\<in>set (map build_unit ns). p \<notin> set u)))"
    if "topological_sort E (graph ig2) = Some order" "topological_order (graph ig2) order"
      "File p \<in> set (nodes (graph ig2))" "\<not> endswith p ''.py''" for ig2 order p
    using that by (rule deps_list_non_source)
  have sink: "sink_with_source (File t) (graph ig')"
    if a: "add_file_recursive E seed ig = Some ig'"
      and b: "\<forall>e\<in>set (edges (graph ig)). fst e \<noteq> File t" for ig'
  proof -
    from add_file_recursive_passes [OF a] obtain k where
      k: "ig' = obj (passes E k ?s)" "queue (passes E k ?s) = []" by blast
    from final_after_dequeue [OF assms(1) k(2)] have "n < k" .
    from later [OF this] k(1) have ne: "File t \<in> set (nodes (graph ig'))"
      "(File x, File t) \<in> set (edges (graph ig'))" by simp_all
    have "fst e \<noteq> File t" if "e \<in> set (edges (graph ig'))" for e
    proof
      assume "fst e = File t"
      with that have "(File t, snd e) \<in> set (edges (graph (obj (passes E k ?s))))"
        unfolding k(1) by (metis prod.collapse)
      then have "(File t, snd e) \<in> set (edges (graph ig))" by (rule src)
      with b show False by auto
    qed
    moreover from ne(2) have "\<exists>e\<in>set (edges (graph ig')). snd e = File t" by force
    ultimately show ?thesis using ne(1) by (simp add: sink_with_source_def)
  qed
  have collapse: "sink_with_source m (graph ig2)"
    if "find_cycle_ok (find_cycle E)" "wf_digraph (graph ig1)" "nested_absent (graph ig1)"
      "sink_with_source m (graph ig1)" "collapse_cycles E ig1 = Some (Inr ig2)" for ig1 ig2 m
  proof -
    from collapse_cycles_loop [OF that(5)] obtain pfx where
      "collapse_loop E pfx (graph ig1) = Some (Inr (graph ig2))" by blast
    with that(1-4) show ?thesis by (rule collapse_loop_keeps_sink)
  qed
  have final: "File t \<in> set (nodes (graph ig')) \<and> (File x, File t) \<in> set (edges (graph ig')) \<and>
            (\<forall>order. topological_sort E (graph ig') = Some order \<and>
                     topological_order (graph ig') order \<longrightarrow>
               precedes (File x) (File t) order \<and>
               (\<exists>ns. deps_list E ig' = Inr (map build_unit ns) \<and> distinct ns \<and>
                     set ns = {n \<in> set (nodes (graph ig')). emitted n} \<and> File t \<notin> set ns))"
    if "add_file_recursive E seed ig = Some ig'" for ig'
  proof -
    from add_file_recursive_passes [OF that] obtain k where
      k: "ig' = obj (passes E k ?s)" "queue (passes E k ?s) = []" by blast
    from final_after_dequeue [OF assms(1) k(2)] have "n < k" .
    from later [OF this] k(1) have ne: "File t \<in> set (nodes (graph ig'))"
      "(File x, File t) \<in> set (edges (graph ig'))" by simp_all
    have "precedes (File x) (File t) order \<and>
               (\<exists>ns. deps_list E ig' = Inr (map build_unit ns) \<and> distinct ns \<and>
                     set ns = {n \<in> set (nodes (graph ig')). emitted n} \<and> File t \<notin> set ns)"
      if o: "topological_sort E (graph ig') = Some order" "topological_order (graph ig') order"
      for order
    proof -
      from units [OF o ne(1) assms(6)] ne(2) have "precedes (File x) (File t) order" by blast
      moreover from units [OF o ne(1) assms(6)] have
        "\<exists>ns. deps_list E ig' = Inr (map build_unit ns) \<and> distinct ns \<and>
              set ns = {n \<in> set (nodes (graph ig')). emitted n} \<and> File t \<notin> set ns" by blast
      ultimately show ?thesis ..
    qed
    with ne show ?thesis by blast
  qed
  show ?thesis
  proof (intro conjI allI impI)
    fix m assume "n < m"
    from later [OF this] show "File t \<in> set (nodes (graph (obj (passes E m ?s))))"
      and "(File x, File t) \<in> set (edges (graph (obj (passes E m ?s))))" by simp_all
  next
    fix m show "t \<notin> set (queue (passes E m ?s))" by (rule never)
  next
    fix m v assume "(File t, v) \<in> set (edges (graph (obj (passes E m ?s))))"
    then show "(File t, v) \<in> set (edges (graph ig))" by (rule src)
  next
    fix ig' assume a: "add_file_recursive E seed ig = Some ig'"
    from final [OF a] show "File t \<in> set (nodes (graph ig'))"
      and "(File x, File t) \<in> set (edges (graph ig'))" by simp_all
    {
      assume "\<forall>e\<in>set (edges (graph ig)). fst e \<noteq> File t"
      with a show "sink_with_source (File t) (graph ig')" by (rule sink)
    }
    fix order assume "topological_sort E (graph ig') = Some order \<and>
                     topological_order (graph ig') order"
    with final [OF a] show "precedes (File x) (File t) order"
      and "\<exists>ns. deps_list E ig' = Inr (map build_unit ns) \<and> distinct ns \<and>
                     set ns = {n \<in> set (nodes (graph ig')). emitted n} \<and> File t \<notin> set ns"
      by blast+
  next
    fix ig2 :: import_graph and order p
    assume "topological_sort E (graph ig2) = Some order \<and>
                 topological_order (graph ig2) order \<and>
                 File p \<in> set (nodes (graph ig2)) \<and> \<not> endswith p ''.py''"
    then have u: "File p \<in> set order \<and>
            (\<forall>k. (k, File p) \<in> set (edges (graph ig2)) \<longrightarrow> precedes k (File p) order) \<and>
            (\<exists>ns. deps_list E ig2 = Inr (map build_unit ns) \<and> distinct ns \<and>
                  set ns = {n \<in> set (nodes (graph ig2)). emitted n} \<and> File p \<notin> set ns \<and>
                  ((\<forall>c. CycleNode c \<in> set (nodes (graph ig2)) \<longrightarrow> p \<notin> set (flatten_nodes c))
                   \<longrightarrow> (\<forall>u\<in>set (map build_unit ns). p \<notin> set u)))"
      by (intro units) simp_all
    from u show "File p \<in> set order" by (rule conjunct1)
    from u show "\<exists>ns. deps_list E ig2 = Inr (map build_unit ns) \<and> distinct ns \<and>
                  set ns = {n \<in> set (nodes (graph ig2)). emitted n} \<and> File p \<notin> set ns \<and>
                  ((\<forall>c. CycleNode c \<in> set (nodes (graph ig2)) \<longrightarrow> p \<notin> set (flatten_nodes c))
                   \<longrightarrow> (\<forall>u\<in>set (map build_unit ns). p \<notin> set u))"
      by (rule conjunct2 [THEN conjunct2])
    fix k assume "(k, File p) \<in> set (edges (graph ig2))"
    with u show "precedes k (File p) order" by blast
  next
    fix ig1 ig2 :: import_graph and m
    assume "find_cycle_ok (find_cycle E) \<and> wf_digraph (graph ig1) \<and>
                 nested_absent (graph ig1) \<and> sink_with_source m (graph ig1) \<and>
                 collapse_cycles E ig1 = Some (Inr ig2)"
    then have "find_cycle_ok (find_cycle E)" "wf_digraph (graph ig1)" "nested_absent (graph ig1)"
      "sink_with_source m (graph ig1)" "collapse_cycles E ig1 = Some (Inr ig2)" by simp_all
    then show "sink_with_source m (graph ig2)" by (rule collapse)
  qed
qed

theorem non_source_target_kept_not_emitted_witness:
  "File ''/stubs/t.pyi''
     \<in> set (nodes (graph (obj (passes ex_env_dag 1 (traversal_start ''/p/a.py'' ex_new))))) \<and>
   (File ''/p/a.py'', File ''/stubs/t.pyi'')
     \<in> set (edges (graph (obj (passes ex_env_dag 1 (traversal_start ''/p/a.py'' ex_new))))) \<and>
   ''/stubs/t.pyi'' \<notin> set (queue (passes ex_env_dag 1 (traversal_start ''/p/a.py'' ex_new))) \<and>
   deps_list ex_env_dag (obj (passes ex_env_dag 2 (traversal_start ''/p/a.py'' ex_new))) =
     Inr [[''/p/b.py''], [''/p/a.py'']]"
proof -
  have q: "queue (passes ex_env_dag 0 (traversal_start ''/p/a.py'' ex_new)) = ''/p/a.py'' # []"
    by code_simp
  have i: "''t'' \<in> set (scan_file ex_env_dag ''/p/a.py'')" by code_simp
  have r: "resolve_import ex_env_dag (path ex_new) ''/p/a.py'' ''t'' = Some ''/stubs/t.pyi''"
    by code_simp
  have n: "\<not> endswith ''/stubs/t.pyi'' ''.so''" by code_simp
  have a: "''/stubs/t.pyi'' = abspath ex_env_dag ''/stubs/t.pyi''" by code_simp
  have s1: "''/stubs/t.pyi'' \<noteq> ''/p/a.py''" by code_simp
  have s2: "\<not> endswith ''/stubs/t.pyi'' ''.py''" by code_simp
  note t = non_source_target_kept_not_emitted [OF q i r n a s2 s1]
  have l: "(0::nat) < 1" by simp
  have 1: "File ''/stubs/t.pyi''
     \<in> set (nodes (graph (obj (passes ex_env_dag 1 (traversal_start ''/p/a.py'' ex_new)))))"
    using l by (rule t [THEN conjunct1, rule_format, THEN conjunct1])
  have 2: "(File ''/p/a.py'', File ''/stubs/t.pyi'')
     \<in> set (edges (graph (obj (passes ex_env_dag 1 (traversal_start ''/p/a.py'' ex_new)))))"
    using l by (rule t [THEN conjunct1, rule_format, THEN conjunct2])
  have 3: "''/stubs/t.pyi'' \<notin> set (queue (passes ex_env_dag 1 (traversal_start ''/p/a.py'' ex_new)))"
    by (rule t [THEN conjunct2, THEN conjunct1, rule_format])
  have 4: "deps_list ex_env_dag (obj (passes ex_env_dag 2 (traversal_start ''/p/a.py'' ex_new))) =
     Inr [[''/p/b.py''], [''/p/a.py'']]" by code_simp
  from 1 2 3 4 show ?thesis by (intro conjI)
qed

end
